theory Spec2Isabelle
  imports Main
begin

text \<open>
  The coordination layer of fabric-client-wrapper: \<^verbatim>\<open>ChannelSetupServer\<close>, the
  rendezvous server on which organizations report that a setup step is done, and the two
  fan-out operations of \<^verbatim>\<open>MultiUserClient\<close>, \<^verbatim>\<open>joinChannel\<close> and
  \<^verbatim>\<open>installChaincode\<close>, which split the target peers among the clients that
  administer them. The server is a state record and one function for each handler; the
  fan-out operations are functions of the collaborators they call.
\<close>

section \<open>Shared vocabulary: errors, promises, lodash helpers\<close>

text \<open>
  A JavaScript \<^verbatim>\<open>Error\<close> is its message; a \<^verbatim>\<open>RangeError\<close> of Node is its code. A promise is modelled by the way it
  settles: never (\<open>Pending\<close>), fulfilled with a value, or rejected with an error. The
  number is the time at which it settles.
\<close>

datatype error = Error string | RangeError string

datatype 'a promise = Pending | Fulfilled nat 'a | Rejected nat error

text \<open>
  \<^verbatim>\<open>resolve(v)\<close> and \<^verbatim>\<open>reject(e)\<close> of the promise constructor: they settle a
  pending promise and do nothing to a settled one.
\<close>

fun resolve :: "nat \<Rightarrow> 'a \<Rightarrow> 'a promise \<Rightarrow> 'a promise" where
  "resolve t v Pending = Fulfilled t v"
| "resolve t v p = p"

fun reject :: "nat \<Rightarrow> error \<Rightarrow> 'a promise \<Rightarrow> 'a promise" where
  "reject t e Pending = Rejected t e"
| "reject t e p = p"

text \<open>
  lodash \<^verbatim>\<open>uniq\<close>: duplicate-free copy, the first occurrence of every value kept,
  in order.
\<close>

function uniq :: "'a list \<Rightarrow> 'a list" where
  "uniq [] = []"
| "uniq (x # xs) = x # uniq (filter (\<lambda>y. y \<noteq> x) xs)"
  by pat_completeness auto
termination
  by (relation "measure length") (auto simp: less_Suc_eq_le)

text \<open>
  lodash \<^verbatim>\<open>intersection(a, b)\<close>: the unique values of \<open>a\<close> that are in \<open>b\<close>, in
  the order of \<open>a\<close>. The source uses the \<^verbatim>\<open>lodash/fp\<close> variant, which is curried and
  takes its arguments in the reverse order: \<^verbatim>\<open>_.intersection(x)(y)\<close> is
  \<^verbatim>\<open>intersection(y, x)\<close>.
\<close>

definition intersection :: "'a list \<Rightarrow> 'a list \<Rightarrow> 'a list" where
  "intersection a b = uniq (filter (\<lambda>v. v \<in> set b) a)"

definition fp_intersection :: "'a list \<Rightarrow> 'a list \<Rightarrow> 'a list" where
  "fp_intersection x y = intersection y x"

text \<open>
  \<^verbatim>\<open>String.prototype.split\<close> with a one-character separator: the pieces between
  the separators; the empty string gives one empty piece.
\<close>

fun split_acc :: "char \<Rightarrow> string \<Rightarrow> string \<Rightarrow> string list" where
  "split_acc c cur [] = [rev cur]"
| "split_acc c cur (x # xs) =
     (if x = c then rev cur # split_acc c [] xs else split_acc c (x # cur) xs)"

definition split :: "string \<Rightarrow> char \<Rightarrow> string list" where
  "split message c = split_acc c [] message"

text \<open>
  \<^verbatim>\<open>Array.prototype.join\<close> with a one-character separator, by which the protocol
  forms a message from identifiers. It is used only to say what \<open>split\<close> computes.
\<close>

fun join :: "string list \<Rightarrow> char \<Rightarrow> string" where
  "join [] c = []"
| "join [w] c = w"
| "join (w # ws) c = w @ c # join ws c"

section \<open>Collaborators: peers, channels, user clients\<close>

text \<open>
  A peer as the wrapper extends it: \<^verbatim>\<open>getMspId()\<close> and \<^verbatim>\<open>getAdminMspIds()\<close>.
\<close>

record peer =
  url :: string
  getMspId :: string
  getAdminMspIds :: "string list"

record channel =
  getPeers :: "peer list"

text \<open>
  \<^verbatim>\<open>UserClient\<close> is imported as a type only. Its two accessors used here are
  \<^verbatim>\<open>getMspId()\<close> (by the server) and \<^verbatim>\<open>getOrganizationConfig().mspId\<close> (by
  \<^verbatim>\<open>MultiUserClient\<close>).
\<close>

record userClient =
  userName :: string
  userMspId :: string
  organizationConfigMspId :: string

section \<open>ChannelSetupServer\<close>

type_synonym socket = nat

definition DEFAULT_PORT :: int where
  "DEFAULT_PORT = 45207"

definition SPLIT_CHAR :: char where
  "SPLIT_CHAR = CHR ''-''"


text \<open>
  One entry per call of \<^verbatim>\<open>requestResponses\<close>: the timer made by
  \<^verbatim>\<open>setTimeout\<close> (its deadline, and whether it is still armed) and the promise the
  call returned. The callback \<^verbatim>\<open>cb\<close> of call number \<open>k\<close> is represented by \<open>k\<close>.
\<close>

record waiter =
  deadline :: nat
  armed :: bool
  returned :: "unit promise"

text \<open>
  The five fields of the class, then what the class acts on: the clock, the calls made so
  far, the port listened on, the number of sockets accepted, every
  \<^verbatim>\<open>socket.write\<close> in order and every invocation of a callback in order.
\<close>

record server =
  clients :: "socket list"
  externalMspIds :: "string list"
  mspResponses :: "string list"
  waitResponsesCbs :: "nat list"
  requesting :: bool
  now :: nat
  waiters :: "waiter list"
  listening :: int
  accepted :: nat
  written :: "(socket \<times> string) list"
  invoked :: "nat list"


definition timeoutError :: error where
  "timeoutError = Error ''Error: Timeout waiting for clients''"


definition listenPort :: "int option \<Rightarrow> int" where
  "listenPort port = (case port of None \<Rightarrow> DEFAULT_PORT | Some n \<Rightarrow> if n = 0 then DEFAULT_PORT else n)"

definition initialServer :: "string list \<Rightarrow> int option \<Rightarrow> server" where
  "initialServer ids port =
     \<lparr> clients = [], externalMspIds = ids, mspResponses = [], waitResponsesCbs = [],
       requesting = False, now = 0, waiters = [], listening = listenPort port,
       accepted = 0, written = [], invoked = [] \<rparr>"





text \<open>\<^verbatim>\<open>socket.write(text)\<close>.\<close>

definition socketWrite :: "socket \<Rightarrow> string \<Rightarrow> server \<Rightarrow> server" where
  "socketWrite s text st = st\<lparr>written := written st @ [(s, text)]\<rparr>"

text \<open>
  The connection listener (lines 40-44): the new socket is pushed and, if
  \<^verbatim>\<open>requesting\<close> is set, sent \<^verbatim>\<open>request\<close>. Sockets are numbered as accepted.
\<close>

definition connection :: "server \<Rightarrow> server" where
  "connection st =
     (let s = accepted st;
          st1 = st\<lparr>clients := clients st @ [s], accepted := Suc (accepted st)\<rparr>
      in if requesting st1 then socketWrite s ''request'' st1 else st1)"

text \<open>
  The callback of call \<open>k\<close> (lines 73-76): \<^verbatim>\<open>clearTimeout(handle); resolve()\<close>.
\<close>

definition invokeCb :: "server \<Rightarrow> nat \<Rightarrow> server" where
  "invokeCb st k =
     (let st1 = st\<lparr>invoked := invoked st @ [k]\<rparr>
      in if k < length (waiters st1)
         then (let w = waiters st1 ! k
               in st1\<lparr>waiters := (waiters st1)[k := w\<lparr>armed := False,
                                        returned := resolve (now st1) () (returned w)\<rparr>]\<rparr>)
         else st1)"

text \<open>
  The value assigned to \<^verbatim>\<open>this.mspResponses\<close> on lines 48-50:
  \<^verbatim>\<open>_.compose(_.intersection(this.externalMspIds), _.uniq)\<close> applied to the
  concatenation.
\<close>

definition collected :: "server \<Rightarrow> string \<Rightarrow> string list" where
  "collected st message =
     fp_intersection (externalMspIds st) (uniq (mspResponses st @ split message SPLIT_CHAR))"

text \<open>The \<^verbatim>\<open>data\<close> handler (lines 46-58).\<close>

definition dataHandler :: "socket \<Rightarrow> string \<Rightarrow> server \<Rightarrow> server" where
  "dataHandler s message st =
     (let st1 = st\<lparr>mspResponses := collected st message\<rparr>
      in if length (mspResponses st1) = length (externalMspIds st1)
         then (foldl invokeCb st1 (waitResponsesCbs st1))\<lparr>mspResponses := [], requesting := False\<rparr>
         else st1)"

text \<open>
  \<^verbatim>\<open>Array.prototype.indexOf\<close> gives \<open>-1\<close> for a missing element, and
  \<^verbatim>\<open>splice(-1, 1)\<close> removes the last element.
\<close>

fun indexOf :: "'a list \<Rightarrow> 'a \<Rightarrow> nat option" where
  "indexOf [] v = None"
| "indexOf (x # xs) v = (if x = v then Some 0 else map_option Suc (indexOf xs v))"

definition splice1 :: "'a list \<Rightarrow> nat option \<Rightarrow> 'a list" where
  "splice1 xs i = (case i of None \<Rightarrow> butlast xs | Some n \<Rightarrow> take n xs @ drop (Suc n) xs)"

text \<open>The \<^verbatim>\<open>end\<close> handler (lines 60-62).\<close>

definition endHandler :: "socket \<Rightarrow> server \<Rightarrow> server" where
  "endHandler s st = st\<lparr>clients := splice1 (clients st) (indexOf (clients st) s)\<rparr>"

text \<open>
  The delay \<^verbatim>\<open>setTimeout\<close> of Node gives a timer, in milliseconds: the one asked
  for when it is from 1 to 2147483647, and 1 otherwise.
\<close>

definition TIMEOUT_MAX :: int where
  "TIMEOUT_MAX = 2147483647"

definition timerDelay :: "int \<Rightarrow> nat" where
  "timerDelay after = (if 1 \<le> after \<and> after \<le> TIMEOUT_MAX then nat after else 1)"

text \<open>
  \<^verbatim>\<open>requestResponses(timeout = 60000)\<close> (lines 70-83): a timer, a callback pushed on
  \<^verbatim>\<open>waitResponsesCbs\<close>, and \<^verbatim>\<open>request\<close> written to every client. The result is
  the state and the number of the call, which names the promise returned.
\<close>

definition requestedTimeout :: "int option \<Rightarrow> int" where
  "requestedTimeout timeout = (case timeout of None \<Rightarrow> 60000 | Some n \<Rightarrow> n)"

definition requestResponses :: "int option \<Rightarrow> server \<Rightarrow> server \<times> nat" where
  "requestResponses timeout st =
     (let t = requestedTimeout timeout;
          k = length (waiters st);
          st1 = st\<lparr>waiters := waiters st @
                  [\<lparr>deadline = now st + timerDelay t, armed = True, returned = Pending\<rparr>]\<rparr>;
          st2 = st1\<lparr>waitResponsesCbs := waitResponsesCbs st1 @ [k]\<rparr>
      in (foldl (\<lambda>acc s. socketWrite s ''request'' acc) st2 (clients st2), k))"

text \<open>\<^verbatim>\<open>sendCompleted()\<close> (lines 85-89).\<close>

definition sendCompleted :: "server \<Rightarrow> server" where
  "sendCompleted st = foldl (\<lambda>acc s. socketWrite s ''complete'' acc) st (clients st)"

text \<open>
  The timer of a call fires once its deadline has come, if it is still armed, and rejects
  the promise (line 72). \<open>elapse d\<close> lets \<open>d\<close> milliseconds pass and runs the timers that
  come due in them, each at its deadline.
\<close>

definition fireTimer :: "nat \<Rightarrow> waiter \<Rightarrow> waiter" where
  "fireTimer t w =
     (if armed w \<and> deadline w \<le> t
      then w\<lparr>armed := False, returned := reject (deadline w) timeoutError (returned w)\<rparr>
      else w)"

definition elapse :: "nat \<Rightarrow> server \<Rightarrow> server" where
  "elapse d st = st\<lparr>now := now st + d, waiters := map (fireTimer (now st + d)) (waiters st)\<rparr>"

text \<open>The events the server handles, one at a time, and a run of them.\<close>

datatype event =
    Connection
  | Data socket string
  | End socket
  | RequestResponses "int option"
  | SendCompleted
  | Elapse nat

fun handle :: "server \<Rightarrow> event \<Rightarrow> server" where
  "handle st Connection = connection st"
| "handle st (Data s message) = dataHandler s message st"
| "handle st (End s) = endHandler s st"
| "handle st (RequestResponses timeout) = fst (requestResponses timeout st)"
| "handle st SendCompleted = sendCompleted st"
| "handle st (Elapse d) = elapse d st"

definition run :: "server \<Rightarrow> event list \<Rightarrow> server" where
  "run st evs = foldl handle st evs"

text \<open>
  What a run of the server keeps true: the callbacks registered are those of all calls made
  so far, in order; the sockets held are distinct and were accepted; the identifiers
  reported are distinct and expected; a timer is armed exactly while its promise is
  pending, and an armed timer is not overdue.
\<close>

definition timerConsistent :: "nat \<Rightarrow> waiter \<Rightarrow> bool" where
  "timerConsistent t w = (armed w = (returned w = Pending) \<and> (if armed w then t \<le> deadline w else True))"

definition serverInvariant :: "server \<Rightarrow> bool" where
  "serverInvariant st =
     (waitResponsesCbs st = [0..<length (waiters st)] \<and>
      distinct (clients st) \<and> list_all (\<lambda>s. s < accepted st) (clients st) \<and>
      distinct (mspResponses st) \<and> list_all (\<lambda>v. v \<in> set (externalMspIds st)) (mspResponses st) \<and>
      list_all (timerConsistent (now st)) (waiters st))"

text \<open>What the callback of a call does to that call: timer cleared, promise resolved.\<close>

definition released :: "nat \<Rightarrow> waiter \<Rightarrow> waiter" where
  "released t w = w\<lparr>armed := False, returned := resolve t () (returned w)\<rparr>"

text \<open>A call no callback has released: its promise is pending or was rejected by its timer.\<close>

definition waiting :: "waiter \<Rightarrow> bool" where
  "waiting w = (returned w = Pending \<or> returned w = Rejected (deadline w) timeoutError)"


section \<open>MultiUserClient\<close>

text \<open>
  \<^verbatim>\<open>Promise.all\<close>, called at the instant \<open>start\<close>. It rejects with the rejection
  that reaches it first. Promises rejected by then are seen at \<open>start\<close>, in the order of
  the array. A promise rejected later is seen at the instant of its rejection; of two
  promises rejected at the same later instant the one rejected first is seen first, which
  the instants do not tell: \<open>happenedFirst t e e'\<close> says whether, of two rejections of the
  instant \<open>t\<close>, the one with the error \<open>e\<close> (the earlier in the array) came before the one
  with \<open>e'\<close>, and is a parameter. \<^verbatim>\<open>Promise.all\<close> fulfils when every promise has
  fulfilled, with the values in the order of the array; otherwise it stays pending.
\<close>

fun firstRejection ::
  "(nat \<Rightarrow> error \<Rightarrow> error \<Rightarrow> bool) \<Rightarrow> nat \<Rightarrow> 'a promise list \<Rightarrow> (nat \<times> error) option" where
  "firstRejection happenedFirst start [] = None"
| "firstRejection happenedFirst start (p # ps) =
     (case p of
        Rejected t e \<Rightarrow>
          (case firstRejection happenedFirst start ps of
             None \<Rightarrow> Some (max start t, e)
           | Some (t', e') \<Rightarrow>
               if max start t < t' then Some (max start t, e)
               else if t' < max start t then Some (t', e')
               else if t' = start then Some (start, e)
               else if happenedFirst t' e e' then Some (t', e)
               else Some (t', e'))
      | _ \<Rightarrow> firstRejection happenedFirst start ps)"

fun allFulfilled :: "nat \<Rightarrow> 'a promise list \<Rightarrow> (nat \<times> 'a list) option" where
  "allFulfilled start [] = Some (start, [])"
| "allFulfilled start (Fulfilled t v # ps) =
     (case allFulfilled start ps of None \<Rightarrow> None | Some (t', vs) \<Rightarrow> Some (max t t', v # vs))"
| "allFulfilled start (p # ps) = None"

definition promiseAll ::
  "(nat \<Rightarrow> error \<Rightarrow> error \<Rightarrow> bool) \<Rightarrow> nat \<Rightarrow> 'a promise list \<Rightarrow> 'a list promise" where
  "promiseAll happenedFirst start ps =
     (case firstRejection happenedFirst start ps of
        Some (t, e) \<Rightarrow> Rejected t e
      | None \<Rightarrow> (case allFulfilled start ps of Some (t, vs) \<Rightarrow> Fulfilled t vs | None \<Rightarrow> Pending))"

text \<open>
  What a single-organization operation of \<^verbatim>\<open>UserClient\<close> gives: its immediate data,
  and \<^verbatim>\<open>wait()\<close>, which returns a promise when invoked (at a time).
\<close>

record ('d, 'w) response =
  responseData :: 'd
  responseWait :: "nat \<Rightarrow> 'w promise"

text \<open>
  The calls \<^verbatim>\<open>MultiUserClient\<close> makes on its collaborators, recorded in order: the
  operations of the user clients with the targets given, and \<^verbatim>\<open>wait()\<close> of the
  response at an index.
\<close>

datatype call =
    JoinChannel userClient "peer list"
  | InstallChaincode userClient "peer list"
  | Wait nat

text \<open>
  The object the fan-out operations return: \<^verbatim>\<open>data\<close> and, where the source sets it,
  \<^verbatim>\<open>wait\<close>, a function to be invoked (at a time, on the record of calls).
\<close>

record ('d, 'w) aggregateResult =
  data :: "'d list"
  wait :: "(nat \<Rightarrow> call list \<Rightarrow> 'w list promise \<times> call list) option"

record 'g joinChannelOpts =
  optsTargets :: "peer list option"
  optsGenesisBlock :: "'g option"
  optsTimeout :: "nat option"

record chaincodeInstallRequest =
  targets :: "peer list"
  chaincodeId :: string
  chaincodePath :: string
  chaincodeVersion :: string
  chaincodePackage :: "string option"
  chaincodeType :: "string option"

text \<open>
  The loop over \<^verbatim>\<open>this.userClients\<close> (lines 149-160 and 189-200): lodash
  \<^verbatim>\<open>remove\<close> takes out of the working copy \<open>peers\<close> every peer whose admin MSP
  identifiers include the MSP identifier of the client, and returns them; a call is
  pushed for the client when it owns at least one peer. The result lists, in order, the
  clients called and the peers each is given.
\<close>

definition owns :: "userClient \<Rightarrow> peer \<Rightarrow> bool" where
  "owns userClient peer = (organizationConfigMspId userClient \<in> set (getAdminMspIds peer))"

fun ownedPeersCalls :: "userClient list \<Rightarrow> peer list \<Rightarrow> (userClient \<times> peer list) list" where
  "ownedPeersCalls [] peers = []"
| "ownedPeersCalls (userClient # userClients) peers =
     (let ownedPeers = filter (owns userClient) peers;
          remaining = filter (\<lambda>peer. \<not> owns userClient peer) peers
      in (if length ownedPeers > 0 then [(userClient, ownedPeers)] else [])
         @ ownedPeersCalls userClients remaining)"

text \<open>
  \<^verbatim>\<open>{...joinChannelOpts, targets: ownedPeers}\<close>; the options may be absent.
\<close>

definition ownedPeersJoinChannelOpts :: "'g joinChannelOpts option \<Rightarrow> peer list \<Rightarrow> 'g joinChannelOpts" where
  "ownedPeersJoinChannelOpts joinChannelOpts ownedPeers =
     (case joinChannelOpts of
        None \<Rightarrow> \<lparr>optsTargets = Some ownedPeers, optsGenesisBlock = None, optsTimeout = None\<rparr>
      | Some opts \<Rightarrow> opts\<lparr>optsTargets := Some ownedPeers\<rparr>)"

text \<open>
  \<^verbatim>\<open>joinChannel\<close> (lines 140-167). \<^verbatim>\<open>isFcwPeer\<close> comes from a module that is not
  among the sources and \<^verbatim>\<open>UserClient.joinChannel\<close> is a collaborator: both are
  parameters. The operation is called at time \<open>start\<close>; it returns the promise of the
  asynchronous function and the record of calls, extended.
\<close>

text \<open>
  \<open>joinChannelOwnedPeers\<close> is the client and the \<^verbatim>\<open>ownedPeers\<close> of every call pushed;
  \<open>joinChannelCalls\<close> is the array of that name, the promises the calls returned.
\<close>

definition joinChannelOwnedPeers ::
  "(peer \<Rightarrow> bool) \<Rightarrow> userClient list \<Rightarrow> channel \<Rightarrow> (userClient \<times> peer list) list" where
  "joinChannelOwnedPeers isFcwPeer userClients channel =
     ownedPeersCalls userClients (filter isFcwPeer (getPeers channel))"

definition joinChannelCalls ::
  "(peer \<Rightarrow> bool) \<Rightarrow> (userClient \<Rightarrow> channel \<Rightarrow> 'g joinChannelOpts \<Rightarrow> ('d, 'w) response promise) \<Rightarrow>
   userClient list \<Rightarrow> channel \<Rightarrow> 'g joinChannelOpts option \<Rightarrow> ('d, 'w) response promise list" where
  "joinChannelCalls isFcwPeer userClientJoinChannel userClients channel joinChannelOpts =
     map (\<lambda>(userClient, ownedPeers).
            userClientJoinChannel userClient channel (ownedPeersJoinChannelOpts joinChannelOpts ownedPeers))
       (joinChannelOwnedPeers isFcwPeer userClients channel)"

definition joinChannel ::
  "(nat \<Rightarrow> error \<Rightarrow> error \<Rightarrow> bool) \<Rightarrow> (peer \<Rightarrow> bool) \<Rightarrow> (userClient \<Rightarrow> channel \<Rightarrow> 'g joinChannelOpts \<Rightarrow> ('d, 'w) response promise) \<Rightarrow>
   userClient list \<Rightarrow> channel \<Rightarrow> 'g joinChannelOpts option \<Rightarrow> nat \<Rightarrow> call list \<Rightarrow>
   ('d, 'w) aggregateResult promise \<times> call list" where
  "joinChannel happenedFirst isFcwPeer userClientJoinChannel userClients channel joinChannelOpts
       start calls =
     (let calls1 = calls @ map (\<lambda>(userClient, ownedPeers). JoinChannel userClient ownedPeers)
                             (joinChannelOwnedPeers isFcwPeer userClients channel)
      in (case promiseAll happenedFirst start
                (joinChannelCalls isFcwPeer userClientJoinChannel userClients channel joinChannelOpts) of
            Pending \<Rightarrow> Pending
          | Rejected t e \<Rightarrow> Rejected t e
          | Fulfilled t joinChannelResponses \<Rightarrow>
              Fulfilled t
                \<lparr>data = map responseData joinChannelResponses,
                 wait = Some (\<lambda>invokedAt calls2.
                   (promiseAll happenedFirst invokedAt (map (\<lambda>r. responseWait r invokedAt) joinChannelResponses),
                    calls2 @ map Wait [0..<length joinChannelResponses]))\<rparr>,
          calls1))"

text \<open>\<^verbatim>\<open>installChaincode\<close> (lines 181-205): the object returned has \<^verbatim>\<open>data\<close> only.\<close>

definition installChaincodeOwnedPeers ::
  "(peer \<Rightarrow> bool) \<Rightarrow> userClient list \<Rightarrow> chaincodeInstallRequest \<Rightarrow> (userClient \<times> peer list) list" where
  "installChaincodeOwnedPeers isFcwPeer userClients chaincodeInstallRequest =
     ownedPeersCalls userClients (filter isFcwPeer (targets chaincodeInstallRequest))"

definition installChaincodeCalls ::
  "(peer \<Rightarrow> bool) \<Rightarrow>
   (userClient \<Rightarrow> chaincodeInstallRequest \<Rightarrow> nat option \<Rightarrow> ('d, 'w) response promise) \<Rightarrow>
   userClient list \<Rightarrow> chaincodeInstallRequest \<Rightarrow> nat option \<Rightarrow> ('d, 'w) response promise list" where
  "installChaincodeCalls isFcwPeer userClientInstallChaincode userClients chaincodeInstallRequest timeout =
     map (\<lambda>(userClient, ownedPeers).
            userClientInstallChaincode userClient (chaincodeInstallRequest\<lparr>targets := ownedPeers\<rparr>) timeout)
       (installChaincodeOwnedPeers isFcwPeer userClients chaincodeInstallRequest)"

definition installChaincode ::
  "(nat \<Rightarrow> error \<Rightarrow> error \<Rightarrow> bool) \<Rightarrow> (peer \<Rightarrow> bool) \<Rightarrow>
   (userClient \<Rightarrow> chaincodeInstallRequest \<Rightarrow> nat option \<Rightarrow> ('d, 'w) response promise) \<Rightarrow>
   userClient list \<Rightarrow> chaincodeInstallRequest \<Rightarrow> nat option \<Rightarrow> nat \<Rightarrow> call list \<Rightarrow>
   ('d, 'w) aggregateResult promise \<times> call list" where
  "installChaincode happenedFirst isFcwPeer userClientInstallChaincode userClients
       chaincodeInstallRequest timeout start calls =
     (let calls1 = calls @ map (\<lambda>(userClient, ownedPeers). InstallChaincode userClient ownedPeers)
                             (installChaincodeOwnedPeers isFcwPeer userClients chaincodeInstallRequest)
      in (case promiseAll happenedFirst start
                (installChaincodeCalls isFcwPeer userClientInstallChaincode userClients
                   chaincodeInstallRequest timeout) of
            Pending \<Rightarrow> Pending
          | Rejected t e \<Rightarrow> Rejected t e
          | Fulfilled t installChaincodeResponses \<Rightarrow>
              Fulfilled t \<lparr>data = map responseData installChaincodeResponses, wait = None\<rparr>,
          calls1))"

text \<open>
  A rejection that may reach \<^verbatim>\<open>Promise.all\<close> first, said without recursion: it is
  the rejection of some promise of the array, no rejection is seen earlier, and if it had
  happened by \<open>start\<close> then no rejection that had happened by \<open>start\<close> stands before it
  in the array. Of rejections of the same instant after \<open>start\<close> any may be the first.
\<close>

definition firstRejected :: "nat \<Rightarrow> 'a promise list \<Rightarrow> nat \<Rightarrow> error \<Rightarrow> bool" where
  "firstRejected start ps t e =
     (\<exists>i < length ps. \<exists>t0. ps ! i = Rejected t0 e \<and> t = max start t0 \<and>
        (\<forall>j < length ps. \<forall>t' e'. ps ! j = Rejected t' e' \<longrightarrow>
           t \<le> max start t' \<and> (j < i \<and> t = start \<longrightarrow> start < t')))"

section \<open>A small network for the examples\<close>

text \<open>
  Three organizations with a client each, and five peers: \<open>peer2\<close> is administered by
  \<open>org2\<close> and \<open>org1\<close>, \<open>peer3\<close> by an organization with no client here, and \<open>peer5\<close>
  is taken not to pass \<^verbatim>\<open>isFcwPeer\<close>.
\<close>

definition client1 :: userClient where
  "client1 = \<lparr>userName = ''admin1'', userMspId = ''org1'', organizationConfigMspId = ''org1''\<rparr>"

definition client2 :: userClient where
  "client2 = \<lparr>userName = ''admin2'', userMspId = ''org2'', organizationConfigMspId = ''org2''\<rparr>"

definition client3 :: userClient where
  "client3 = \<lparr>userName = ''admin3'', userMspId = ''org3'', organizationConfigMspId = ''org3''\<rparr>"

definition peer1 :: peer where
  "peer1 = \<lparr>url = ''peer1'', getMspId = ''org1'', getAdminMspIds = [''org1'']\<rparr>"

definition peer2 :: peer where
  "peer2 = \<lparr>url = ''peer2'', getMspId = ''org2'', getAdminMspIds = [''org2'', ''org1'']\<rparr>"

definition peer3 :: peer where
  "peer3 = \<lparr>url = ''peer3'', getMspId = ''org4'', getAdminMspIds = [''org4'']\<rparr>"

definition peer4 :: peer where
  "peer4 = \<lparr>url = ''peer4'', getMspId = ''org2'', getAdminMspIds = [''org2'']\<rparr>"

definition peer5 :: peer where
  "peer5 = \<lparr>url = ''peer5'', getMspId = ''org1'', getAdminMspIds = [''org1'']\<rparr>"

definition exampleIsFcwPeer :: "peer \<Rightarrow> bool" where
  "exampleIsFcwPeer p = (url p \<noteq> ''peer5'')"

definition exampleChannel :: channel where
  "exampleChannel = \<lparr>getPeers = [peer1, peer2, peer3, peer4, peer5]\<rparr>"

text \<open>
  Collaborators for the examples: an operation of a client fails, at the instant listed,
  when the client is listed in \<open>failing\<close>, and otherwise gives, at the instant 3, a
  response whose \<^verbatim>\<open>wait()\<close> fails, after the delay listed, when the client is listed in
  \<open>failingWaits\<close>, and otherwise fulfils after 2. Of two rejections of the same instant
  the one later in the array is taken to have come first.
\<close>

definition exampleResponse :: "(string \<times> nat) list \<Rightarrow> userClient \<Rightarrow> (string, unit) response" where
  "exampleResponse failingWaits uc =
     \<lparr>responseData = userName uc,
      responseWait = (\<lambda>invokedAt. case map_of failingWaits (userName uc) of
                        Some delay \<Rightarrow> Rejected (invokedAt + delay) (Error (userName uc))
                      | None \<Rightarrow> Fulfilled (invokedAt + 2) ())\<rparr>"

definition exampleJoinChannel ::
  "(string \<times> nat) list \<Rightarrow> (string \<times> nat) list \<Rightarrow> userClient \<Rightarrow> channel \<Rightarrow> unit joinChannelOpts \<Rightarrow>
   (string, unit) response promise" where
  "exampleJoinChannel failing failingWaits uc ch opts =
     (case map_of failing (userName uc) of
        Some t \<Rightarrow> Rejected t (Error (userName uc))
      | None \<Rightarrow> Fulfilled 3 (exampleResponse failingWaits uc))"

definition exampleInstallChaincode ::
  "(string \<times> nat) list \<Rightarrow> (string \<times> nat) list \<Rightarrow> userClient \<Rightarrow> chaincodeInstallRequest \<Rightarrow>
   nat option \<Rightarrow> (string, unit) response promise" where
  "exampleInstallChaincode failing failingWaits uc request timeout =
     (case map_of failing (userName uc) of
        Some t \<Rightarrow> Rejected t (Error (userName uc))
      | None \<Rightarrow> Fulfilled 3 (exampleResponse failingWaits uc))"

definition exampleHappenedFirst :: "nat \<Rightarrow> error \<Rightarrow> error \<Rightarrow> bool" where
  "exampleHappenedFirst t e e' = False"

definition exampleRequest :: chaincodeInstallRequest where
  "exampleRequest =
     \<lparr>targets = [peer1, peer2, peer3, peer4, peer5], chaincodeId = ''cc'',
      chaincodePath = ''github.com/cc'', chaincodeVersion = ''v1'',
      chaincodePackage = None, chaincodeType = None\<rparr>"

section \<open>Facts about the lodash helpers\<close>

lemma set_uniq: "set (uniq xs) = set xs"
  by (induction xs rule: uniq.induct) auto

lemma distinct_uniq: "distinct (uniq xs)"
  by (induction xs rule: uniq.induct) (auto simp: set_uniq)

lemma uniq_distinct: "distinct xs \<Longrightarrow> uniq xs = xs"
proof (induction xs)
  case Nil
  then show ?case by simp
next
  case (Cons a xs)
  then have "filter (\<lambda>y. y \<noteq> a) xs = xs"
    by (auto simp: filter_id_conv)
  with Cons show ?case by simp
qed

lemma uniq_filter: "uniq (filter P xs) = filter P (uniq xs)"
proof (induction xs rule: uniq.induct)
  case 1
  then show ?case by simp
next
  case (2 x xs)
  have comm: "filter P (filter (\<lambda>y. y \<noteq> x) xs) = filter (\<lambda>y. y \<noteq> x) (filter P xs)"
    by (simp add: conj_commute)
  show ?case
  proof (cases "P x")
    case True
    with 2 comm show ?thesis by simp
  next
    case False
    then have "filter P xs = filter P (filter (\<lambda>y. y \<noteq> x) xs)"
      by (auto intro: filter_cong)
    with False 2 show ?thesis by simp
  qed
qed

lemma uniq_idem: "uniq (uniq xs) = uniq xs"
  by (simp add: uniq_distinct distinct_uniq)

lemma set_fp_intersection: "set (fp_intersection ext xs) = set xs \<inter> set ext"
  by (auto simp: fp_intersection_def intersection_def set_uniq)

lemma distinct_fp_intersection: "distinct (fp_intersection ext xs)"
  by (simp add: fp_intersection_def intersection_def distinct_uniq)

lemma length_fp_intersection: "length (fp_intersection ext xs) = card (set xs \<inter> set ext)"
  using distinct_card [OF distinct_fp_intersection, of ext xs]
  by (simp add: set_fp_intersection)

lemma fp_intersection_filter: "fp_intersection ext (uniq xs) = filter (\<lambda>v. v \<in> set ext) (uniq xs)"
  by (simp add: fp_intersection_def intersection_def uniq_filter uniq_idem)

section \<open>Facts about the server\<close>


lemma invokeCb_fields [simp]:
  "clients (invokeCb st k) = clients st"
  "externalMspIds (invokeCb st k) = externalMspIds st"
  "mspResponses (invokeCb st k) = mspResponses st"
  "waitResponsesCbs (invokeCb st k) = waitResponsesCbs st"
  "requesting (invokeCb st k) = requesting st"
  "now (invokeCb st k) = now st"
  "listening (invokeCb st k) = listening st"
  "accepted (invokeCb st k) = accepted st"
  "written (invokeCb st k) = written st"
  "invoked (invokeCb st k) = invoked st @ [k]"
  "length (waiters (invokeCb st k)) = length (waiters st)"
  by (simp_all add: invokeCb_def Let_def)

lemma invokeAll_fields [simp]:
  "clients (foldl invokeCb st ks) = clients st"
  "externalMspIds (foldl invokeCb st ks) = externalMspIds st"
  "mspResponses (foldl invokeCb st ks) = mspResponses st"
  "waitResponsesCbs (foldl invokeCb st ks) = waitResponsesCbs st"
  "requesting (foldl invokeCb st ks) = requesting st"
  "now (foldl invokeCb st ks) = now st"
  "listening (foldl invokeCb st ks) = listening st"
  "accepted (foldl invokeCb st ks) = accepted st"
  "written (foldl invokeCb st ks) = written st"
  "invoked (foldl invokeCb st ks) = invoked st @ ks"
  "length (waiters (foldl invokeCb st ks)) = length (waiters st)"
  by (induction ks arbitrary: st; simp)+

lemma writeAll_fields [simp]:
  "clients (foldl (\<lambda>acc s. socketWrite s text acc) st ss) = clients st"
  "externalMspIds (foldl (\<lambda>acc s. socketWrite s text acc) st ss) = externalMspIds st"
  "mspResponses (foldl (\<lambda>acc s. socketWrite s text acc) st ss) = mspResponses st"
  "waitResponsesCbs (foldl (\<lambda>acc s. socketWrite s text acc) st ss) = waitResponsesCbs st"
  "requesting (foldl (\<lambda>acc s. socketWrite s text acc) st ss) = requesting st"
  "now (foldl (\<lambda>acc s. socketWrite s text acc) st ss) = now st"
  "listening (foldl (\<lambda>acc s. socketWrite s text acc) st ss) = listening st"
  "accepted (foldl (\<lambda>acc s. socketWrite s text acc) st ss) = accepted st"
  "waiters (foldl (\<lambda>acc s. socketWrite s text acc) st ss) = waiters st"
  "invoked (foldl (\<lambda>acc s. socketWrite s text acc) st ss) = invoked st"
  "written (foldl (\<lambda>acc s. socketWrite s text acc) st ss) = written st @ map (\<lambda>s. (s, text)) ss"
  by (induction ss arbitrary: st; simp add: socketWrite_def)+


lemma resolve_idem [simp]: "resolve t v (resolve t v p) = resolve t v p"
  by (cases p) simp_all

lemma resolve_not_Pending [simp]: "resolve t v p \<noteq> Pending"
  by (cases p) simp_all

lemma resolve_settled: "p \<noteq> Pending \<Longrightarrow> resolve t v p = p"
  by (cases p) simp_all

lemma reject_settled: "p \<noteq> Pending \<Longrightarrow> reject t e p = p"
  by (cases p) simp_all

lemma reject_not_Pending [simp]: "reject t e p \<noteq> Pending"
  by (cases p) simp_all

lemma released_idem [simp]: "released t (released t w) = released t w"
  by (simp add: released_def)

lemma waiters_invokeCb:
  "waiters (invokeCb st k) =
     (if k < length (waiters st) then (waiters st)[k := released (now st) (waiters st ! k)]
      else waiters st)"
  by (simp add: invokeCb_def Let_def released_def)

lemma waiters_invokeAll_nth:
  "j < length (waiters st) \<Longrightarrow>
   waiters (foldl invokeCb st ks) ! j =
     (if j \<in> set ks then released (now st) (waiters st ! j) else waiters st ! j)"
proof (induction ks rule: rev_induct)
  case Nil
  then show ?case by simp
next
  case (snoc k ks)
  then show ?case
    by (auto simp: waiters_invokeCb nth_list_update)
qed


lemma socketWrite_fields [simp]:
  "clients (socketWrite s text st) = clients st"
  "externalMspIds (socketWrite s text st) = externalMspIds st"
  "mspResponses (socketWrite s text st) = mspResponses st"
  "waitResponsesCbs (socketWrite s text st) = waitResponsesCbs st"
  "requesting (socketWrite s text st) = requesting st"
  "now (socketWrite s text st) = now st"
  "listening (socketWrite s text st) = listening st"
  "accepted (socketWrite s text st) = accepted st"
  "waiters (socketWrite s text st) = waiters st"
  "invoked (socketWrite s text st) = invoked st"
  "written (socketWrite s text st) = written st @ [(s, text)]"
  by (simp_all add: socketWrite_def)

lemma invoked_handle_prefix: "\<exists>xs. invoked (handle st e) = invoked st @ xs"
  by (cases e) (simp_all add: connection_def Let_def dataHandler_def endHandler_def
      requestResponses_def sendCompleted_def elapse_def)

lemma serverInvariant_initial: "serverInvariant (initialServer ids port)"
  by (simp add: serverInvariant_def initialServer_def)

lemma timerConsistent_released: "timerConsistent t (released t' w)"
  by (simp add: timerConsistent_def released_def)

lemma timerConsistent_fireTimer:
  "timerConsistent t w \<Longrightarrow> timerConsistent (t + d) (fireTimer (t + d) w)"
  by (auto simp: timerConsistent_def fireTimer_def split: if_splits)

lemma list_all_invokeAll:
  assumes "list_all (timerConsistent t) (waiters st)"
  shows "list_all (timerConsistent t) (waiters (foldl invokeCb st ks))"
  unfolding list_all_length
proof (intro allI impI)
  fix j assume "j < length (waiters (foldl invokeCb st ks))"
  then have j: "j < length (waiters st)" by simp
  with assms have "timerConsistent t (waiters st ! j)"
    by (simp add: list_all_length)
  with j show "timerConsistent t (waiters (foldl invokeCb st ks) ! j)"
    by (simp add: waiters_invokeAll_nth timerConsistent_released)
qed

lemma distinct_splice1: "distinct xs \<Longrightarrow> distinct (splice1 xs i)"
  by (cases i) (auto simp: splice1_def distinct_butlast set_take_disj_set_drop_if_distinct dest: in_set_takeD in_set_dropD)

lemma set_splice1: "set (splice1 xs i) \<subseteq> set xs"
  by (cases i) (auto simp: splice1_def dest: in_set_takeD in_set_dropD in_set_butlastD)

lemma serverInvariant_connection: "serverInvariant st \<Longrightarrow> serverInvariant (connection st)"
  by (auto simp: serverInvariant_def connection_def Let_def list_all_iff)

lemma collected_expected: "list_all (\<lambda>v. v \<in> set (externalMspIds st)) (collected st m)"
  by (simp add: collected_def list_all_iff set_fp_intersection)

lemma distinct_collected: "distinct (collected st m)"
  by (simp add: collected_def distinct_fp_intersection)

lemma serverInvariant_dataHandler:
  assumes "serverInvariant st"
  shows "serverInvariant (dataHandler s m st)"
proof -
  let ?st1 = "st\<lparr>mspResponses := collected st m\<rparr>"
  have "list_all (timerConsistent (now ?st1)) (waiters ?st1)"
    using assms by (simp add: serverInvariant_def)
  then have "list_all (timerConsistent (now ?st1)) (waiters (foldl invokeCb ?st1 ks))" for ks
    by (rule list_all_invokeAll)
  then have w: "list_all (timerConsistent (now st)) (waiters (foldl invokeCb ?st1 ks))" for ks
    by simp
  show ?thesis
    using assms w [of "waitResponsesCbs st"]
    by (simp add: serverInvariant_def dataHandler_def Let_def collected_expected distinct_collected)
qed

lemma serverInvariant_endHandler: "serverInvariant st \<Longrightarrow> serverInvariant (endHandler s st)"
  using set_splice1 [of "clients st" "indexOf (clients st) s"]
  by (auto simp: serverInvariant_def endHandler_def distinct_splice1 list_all_iff)

lemma serverInvariant_requestResponses:
  "serverInvariant st \<Longrightarrow> serverInvariant (fst (requestResponses timeout st))"
  by (auto simp: serverInvariant_def requestResponses_def Let_def timerConsistent_def list_all_iff)

lemma serverInvariant_sendCompleted: "serverInvariant st \<Longrightarrow> serverInvariant (sendCompleted st)"
  by (auto simp: serverInvariant_def sendCompleted_def)

lemma serverInvariant_elapse: "serverInvariant st \<Longrightarrow> serverInvariant (elapse d st)"
  by (auto simp: serverInvariant_def elapse_def list_all_iff timerConsistent_fireTimer)

lemma serverInvariant_handle: "serverInvariant st \<Longrightarrow> serverInvariant (handle st e)"
  by (cases e) (simp_all add: serverInvariant_connection serverInvariant_dataHandler
      serverInvariant_endHandler serverInvariant_requestResponses serverInvariant_sendCompleted
      serverInvariant_elapse)

lemma serverInvariant_run: "serverInvariant st \<Longrightarrow> serverInvariant (run st evs)"
  unfolding run_def by (induction evs arbitrary: st) (simp_all add: serverInvariant_handle)

lemma run_append: "run st (evs @ evs') = run (run st evs) evs'"
  by (simp add: run_def)

lemma run_snoc: "run st (evs @ [e]) = handle (run st evs) e"
  by (simp add: run_def)


lemma split_acc_no_sep:
  "c \<notin> set cur \<Longrightarrow> w \<in> set (split_acc c cur m) \<Longrightarrow> c \<notin> set w"
  by (induction c cur m rule: split_acc.induct) (auto split: if_splits)

lemma split_acc_nonempty [simp]: "split_acc c cur m \<noteq> []"
  by (induction c cur m rule: split_acc.induct) auto

lemma join_Cons: "ws \<noteq> [] \<Longrightarrow> join (w # ws) c = w @ c # join ws c"
  by (cases ws) simp_all

lemma join_split_acc: "join (split_acc c cur m) c = rev cur @ m"
  by (induction c cur m rule: split_acc.induct) (auto simp: join_Cons)

lemma join_split: "join (split m c) c = m"
  by (simp add: split_def join_split_acc)

lemma split_no_sep: "w \<in> set (split m c) \<Longrightarrow> c \<notin> set w"
  unfolding split_def by (rule split_acc_no_sep [of c "[]"]) simp_all

lemma uniq_append: "uniq (xs @ ys) = uniq xs @ uniq (filter (\<lambda>y. y \<notin> set xs) ys)"
proof (induction xs arbitrary: ys rule: uniq.induct)
  case 1
  then show ?case by simp
next
  case (2 x xs)
  have "filter (\<lambda>y. y \<notin> set (filter (\<lambda>y. y \<noteq> x) xs)) (filter (\<lambda>y. y \<noteq> x) ys)
      = filter (\<lambda>y. y \<noteq> x \<and> y \<notin> set xs) ys"
    by (auto intro: filter_cong)
  with "2.IH" [of "filter (\<lambda>y. y \<noteq> x) ys"] show ?case
    by simp
qed

lemma collected_unchanged:
  assumes d: "distinct (mspResponses st)"
    and e: "set (mspResponses st) \<subseteq> set (externalMspIds st)"
    and n: "set (split m SPLIT_CHAR) \<inter> set (externalMspIds st) \<subseteq> set (mspResponses st)"
  shows "collected st m = mspResponses st"
proof -
  let ?ids = "split m SPLIT_CHAR"
  have 1: "filter (\<lambda>v. v \<in> set (externalMspIds st)) (mspResponses st) = mspResponses st"
    using e by (auto simp: filter_id_conv)
  have 2: "filter (\<lambda>v. v \<in> set (externalMspIds st)) (filter (\<lambda>y. y \<notin> set (mspResponses st)) ?ids) = []"
    using n by (auto simp: filter_empty_conv)
  have "collected st m = filter (\<lambda>v. v \<in> set (externalMspIds st)) (uniq (mspResponses st @ ?ids))"
    by (simp add: collected_def fp_intersection_filter)
  also have "\<dots> = filter (\<lambda>v. v \<in> set (externalMspIds st)) (mspResponses st)
       @ uniq (filter (\<lambda>v. v \<in> set (externalMspIds st)) (filter (\<lambda>y. y \<notin> set (mspResponses st)) ?ids))"
    by (simp add: uniq_append uniq_distinct [OF d] uniq_filter)
  also have "\<dots> = mspResponses st"
    by (simp only: 1 2) simp
  finally show ?thesis .
qed

lemma set_collected:
  "set (collected st m) = (set (mspResponses st) \<union> set (split m SPLIT_CHAR)) \<inter> set (externalMspIds st)"
  by (simp add: collected_def set_fp_intersection set_uniq)

lemma length_collected:
  "length (collected st m) = card ((set (mspResponses st) \<union> set (split m SPLIT_CHAR)) \<inter> set (externalMspIds st))"
  by (simp add: collected_def length_fp_intersection set_uniq)

lemma collected_twice: "collected (st\<lparr>mspResponses := collected st m\<rparr>) m = collected st m"
proof -
  let ?st1 = "st\<lparr>mspResponses := collected st m\<rparr>"
  have "collected ?st1 m = mspResponses ?st1"
    by (rule collected_unchanged) (auto simp: distinct_collected set_collected)
  then show ?thesis by simp
qed

lemma dataHandler_incomplete:
  "length (collected st m) \<noteq> length (externalMspIds st) \<Longrightarrow>
   dataHandler s m st = st\<lparr>mspResponses := collected st m\<rparr>"
  by (simp add: dataHandler_def Let_def)

lemma dataHandler_complete:
  "length (collected st m) = length (externalMspIds st) \<Longrightarrow>
   dataHandler s m st =
     (foldl invokeCb (st\<lparr>mspResponses := collected st m\<rparr>) (waitResponsesCbs st))
       \<lparr>mspResponses := [], requesting := False\<rparr>"
  by (simp add: dataHandler_def Let_def)

lemma dataHandler_twice:
  assumes "length (collected st m) \<noteq> length (externalMspIds st)"
  shows "dataHandler s' m (dataHandler s m st) = dataHandler s m st"
proof -
  let ?st1 = "st\<lparr>mspResponses := collected st m\<rparr>"
  have "length (collected ?st1 m) \<noteq> length (externalMspIds ?st1)"
    using assms by (simp add: collected_twice)
  then have "dataHandler s' m ?st1 = ?st1\<lparr>mspResponses := collected ?st1 m\<rparr>"
    by (rule dataHandler_incomplete)
  then show ?thesis
    by (simp add: dataHandler_incomplete [OF assms] collected_twice)
qed

section \<open>Evaluating the server on concrete runs\<close>

lemmas server_eval = run_def initialServer_def connection_def dataHandler_def collected_def
  fp_intersection_def intersection_def split_def SPLIT_CHAR_def listenPort_def DEFAULT_PORT_def
  Let_def endHandler_def splice1_def requestResponses_def sendCompleted_def elapse_def
  fireTimer_def invokeCb_def socketWrite_def timeoutError_def timerDelay_def TIMEOUT_MAX_def
  requestedTimeout_def

section \<open>What the server does\<close>

subsection \<open>Collecting the identifiers reported\<close>

text \<open>
  C5. Processing a participant message splits the payload on the delimiter \<open>-\<close> (no piece
  holds the delimiter, and joining the pieces gives the payload back), unions the pieces
  into the reported identifiers, removes duplicates and keeps only the expected ones. So
  the size that decides completion is the number of distinct expected identifiers reported
  so far: an identifier that is not expected is never counted, a message that brings only
  identifiers already reported or not expected leaves the reported set as it is, and the
  same message sent again (by any socket) to a round it did not complete changes nothing.
\<close>

theorem data_collects_expected_identifiers:
  "(\<forall>w \<in> set (split m SPLIT_CHAR). SPLIT_CHAR \<notin> set w) \<and>
   join (split m SPLIT_CHAR) SPLIT_CHAR = m \<and>
   set (collected st m) =
     (set (mspResponses st) \<union> set (split m SPLIT_CHAR)) \<inter> set (externalMspIds st) \<and>
   distinct (collected st m) \<and>
   length (collected st m) =
     card ((set (mspResponses st) \<union> set (split m SPLIT_CHAR)) \<inter> set (externalMspIds st)) \<and>
   mspResponses (dataHandler s m st) =
     (if length (collected st m) = length (externalMspIds st) then [] else collected st m) \<and>
   (\<forall>z. z \<notin> set (externalMspIds st) \<longrightarrow> z \<notin> set (collected st m)) \<and>
   (distinct (mspResponses st) \<and> set (mspResponses st) \<subseteq> set (externalMspIds st) \<and>
    set (split m SPLIT_CHAR) \<inter> set (externalMspIds st) \<subseteq> set (mspResponses st)
      \<longrightarrow> collected st m = mspResponses st) \<and>
   (length (collected st m) \<noteq> length (externalMspIds st)
      \<longrightarrow> dataHandler s' m (dataHandler s m st) = dataHandler s m st)"
proof -
  have a: "\<forall>w \<in> set (split m SPLIT_CHAR). SPLIT_CHAR \<notin> set w"
    by (simp add: split_no_sep)
  have b: "mspResponses (dataHandler s m st) =
     (if length (collected st m) = length (externalMspIds st) then [] else collected st m)"
    by (simp add: dataHandler_def Let_def)
  have c: "\<forall>z. z \<notin> set (externalMspIds st) \<longrightarrow> z \<notin> set (collected st m)"
    by (simp add: set_collected)
  have d: "distinct (mspResponses st) \<and> set (mspResponses st) \<subseteq> set (externalMspIds st) \<and>
    set (split m SPLIT_CHAR) \<inter> set (externalMspIds st) \<subseteq> set (mspResponses st)
      \<longrightarrow> collected st m = mspResponses st"
    using collected_unchanged by blast
  have e: "length (collected st m) \<noteq> length (externalMspIds st)
      \<longrightarrow> dataHandler s' m (dataHandler s m st) = dataHandler s m st"
    using dataHandler_twice by blast
  from a b c d e show ?thesis
    using join_split set_collected distinct_collected length_collected by blast
qed

theorem data_collects_expected_identifiers_witness:
  "split ''A-Z'' SPLIT_CHAR = [''A'', ''Z''] \<and>
   collected (run (initialServer [''A'', ''B''] None) [Connection, Data 0 ''A'']) ''A-Z'' = [''A''] \<and>
   ''Z'' \<notin> set (externalMspIds (run (initialServer [''A'', ''B''] None) [Connection, Data 0 ''A''])) \<and>
   ''Z'' \<notin> set (collected (run (initialServer [''A'', ''B''] None) [Connection, Data 0 ''A'']) ''A-Z'') \<and>
   distinct (mspResponses (run (initialServer [''A'', ''B''] None) [Connection, Data 0 ''A''])) \<and>
   set (mspResponses (run (initialServer [''A'', ''B''] None) [Connection, Data 0 ''A''])) \<subseteq>
     set (externalMspIds (run (initialServer [''A'', ''B''] None) [Connection, Data 0 ''A''])) \<and>
   set (split ''A-Z'' SPLIT_CHAR) \<inter>
       set (externalMspIds (run (initialServer [''A'', ''B''] None) [Connection, Data 0 ''A''])) \<subseteq>
     set (mspResponses (run (initialServer [''A'', ''B''] None) [Connection, Data 0 ''A''])) \<and>
   collected (run (initialServer [''A'', ''B''] None) [Connection, Data 0 ''A'']) ''A-Z'' =
     mspResponses (run (initialServer [''A'', ''B''] None) [Connection, Data 0 ''A'']) \<and>
   length (collected (run (initialServer [''A'', ''B''] None) [Connection, Data 0 ''A'']) ''A-Z'') \<noteq>
     length (externalMspIds (run (initialServer [''A'', ''B''] None) [Connection, Data 0 ''A''])) \<and>
   dataHandler 1 ''A-Z''
       (dataHandler 0 ''A-Z'' (run (initialServer [''A'', ''B''] None) [Connection, Data 0 ''A''])) =
     dataHandler 0 ''A-Z'' (run (initialServer [''A'', ''B''] None) [Connection, Data 0 ''A''])"
proof -
  let ?st = "run (initialServer [''A'', ''B''] None) [Connection, Data 0 ''A'']"
  note t = data_collects_expected_identifiers [of "''A-Z''" ?st 0 1]
  have s: "split ''A-Z'' SPLIT_CHAR = [''A'', ''Z'']"
    by (simp add: split_def SPLIT_CHAR_def)
  have z: "''Z'' \<notin> set (externalMspIds ?st)"
    by (simp add: server_eval)
  have h: "distinct (mspResponses ?st) \<and> set (mspResponses ?st) \<subseteq> set (externalMspIds ?st) \<and>
      set (split ''A-Z'' SPLIT_CHAR) \<inter> set (externalMspIds ?st) \<subseteq> set (mspResponses ?st)"
    by (simp add: server_eval)
  have m: "mspResponses ?st = [''A'']"
    by (simp add: server_eval)
  have n: "length (collected ?st ''A-Z'') \<noteq> length (externalMspIds ?st)"
    by (simp add: server_eval)
  from t z have a: "''Z'' \<notin> set (collected ?st ''A-Z'')"
    by blast
  from t h have b: "collected ?st ''A-Z'' = mspResponses ?st"
    by blast
  from t n have c: "dataHandler 1 ''A-Z'' (dataHandler 0 ''A-Z'' ?st) = dataHandler 0 ''A-Z'' ?st"
    by blast
  from b m have d: "collected ?st ''A-Z'' = [''A'']"
    by simp
  from h have h1: "distinct (mspResponses ?st)" and h2: "set (mspResponses ?st) \<subseteq> set (externalMspIds ?st)"
    and h3: "set (split ''A-Z'' SPLIT_CHAR) \<inter> set (externalMspIds ?st) \<subseteq> set (mspResponses ?st)"
    by blast+
  show ?thesis
    by (intro conjI) (fact s d z a h1 h2 h3 b n c)+
qed

subsection \<open>The flag \<^verbatim>\<open>requesting\<close>\<close>

lemma requesting_handle: "requesting st = False \<Longrightarrow> requesting (handle st e) = False"
  by (cases e) (simp_all add: connection_def Let_def dataHandler_def endHandler_def
      requestResponses_def sendCompleted_def elapse_def)

lemma requesting_run: "requesting st = False \<Longrightarrow> requesting (run st evs) = False"
  unfolding run_def by (induction evs arbitrary: st) (simp_all add: requesting_handle)

lemma requesting_initial: "requesting (run (initialServer ids port) evs) = False"
  by (rule requesting_run) (simp add: initialServer_def)

lemma serverInvariant_reached: "serverInvariant (run (initialServer ids port) evs)"
  by (simp add: serverInvariant_run serverInvariant_initial)

lemma written_connection_reached:
  "written (connection (run (initialServer ids port) evs)) = written (run (initialServer ids port) evs)"
  by (simp add: connection_def Let_def requesting_initial)

text \<open>
  C1. By the specification, after \<^verbatim>\<open>requestResponses\<close> and until the round
  completes the flag \<^verbatim>\<open>requesting\<close> is true, and a participant that connects in
  that interval is sent \<^verbatim>\<open>request\<close> at once. The code tests the flag when a socket
  connects and clears it when a round completes, but no statement sets it: in every run
  of the server the flag is false and the connection listener writes nothing. With the
  expected set \<open>{A, B}\<close>, a call of \<^verbatim>\<open>requestResponses()\<close> and then a connection,
  the flag is false, the new socket has been sent nothing and the call is still pending;
  a socket connected before the call is sent the request.
\<close>

theorem late_joiner_gets_no_request:
  "requesting (run (initialServer ids port) evs) = False \<and>
   written (connection (run (initialServer ids port) evs)) = written (run (initialServer ids port) evs) \<and>
   requesting (run (initialServer [''A'', ''B''] None) [RequestResponses None]) = False \<and>
   clients (run (initialServer [''A'', ''B''] None) [RequestResponses None, Connection]) = [0] \<and>
   written (run (initialServer [''A'', ''B''] None) [RequestResponses None, Connection]) = [] \<and>
   returned (waiters (run (initialServer [''A'', ''B''] None) [RequestResponses None, Connection]) ! 0) = Pending \<and>
   written (run (initialServer [''A'', ''B''] None) [Connection, RequestResponses None]) = [(0, ''request'')]"
  by (simp add: requesting_initial written_connection_reached) (simp add: server_eval)


subsection \<open>The constructor\<close>





subsection \<open>The end of a connection\<close>

lemma indexOf_None: "indexOf xs v = None \<longleftrightarrow> v \<notin> set xs"
  by (induction xs) auto

lemma indexOf_Some: "indexOf xs v = Some i \<Longrightarrow> take i xs @ drop (Suc i) xs = remove1 v xs"
  by (induction xs arbitrary: i) (auto split: if_splits)

lemma splice1_indexOf: "v \<in> set xs \<Longrightarrow> splice1 xs (indexOf xs v) = remove1 v xs"
  by (cases "indexOf xs v") (simp_all add: indexOf_None splice1_def indexOf_Some)

lemma endHandler_connected:
  "s \<in> set (clients st) \<Longrightarrow> endHandler s st = st\<lparr>clients := remove1 s (clients st)\<rparr>"
  by (simp add: endHandler_def splice1_indexOf)

lemma collected_clients [simp]: "collected (st\<lparr>clients := cs\<rparr>) m = collected st m"
  by (simp add: collected_def)

lemma invokeCb_clients: "invokeCb (st\<lparr>clients := cs\<rparr>) k = (invokeCb st k)\<lparr>clients := cs\<rparr>"
  by (simp add: invokeCb_def Let_def)

lemma invokeAll_clients:
  "foldl invokeCb (st\<lparr>clients := cs\<rparr>) ks = (foldl invokeCb st ks)\<lparr>clients := cs\<rparr>"
  by (induction ks arbitrary: st) (simp_all add: invokeCb_clients)

lemma dataHandler_clients:
  "dataHandler s' m (st\<lparr>clients := cs\<rparr>) = (dataHandler s' m st)\<lparr>clients := cs\<rparr>"
proof -
  let ?v = "collected st m"
  have swap: "(st\<lparr>clients := cs\<rparr>)\<lparr>mspResponses := ?v\<rparr> = (st\<lparr>mspResponses := ?v\<rparr>)\<lparr>clients := cs\<rparr>"
    by simp
  have all: "foldl invokeCb ((st\<lparr>clients := cs\<rparr>)\<lparr>mspResponses := ?v\<rparr>) ks =
       (foldl invokeCb (st\<lparr>mspResponses := ?v\<rparr>) ks)\<lparr>clients := cs\<rparr>" for ks
    by (simp only: swap invokeAll_clients)
  show ?thesis
  proof (cases "length ?v = length (externalMspIds st)")
    case True
    then have "dataHandler s' m (st\<lparr>clients := cs\<rparr>) =
       (foldl invokeCb ((st\<lparr>clients := cs\<rparr>)\<lparr>mspResponses := ?v\<rparr>) (waitResponsesCbs st))
         \<lparr>mspResponses := [], requesting := False\<rparr>"
      using dataHandler_complete [of "st\<lparr>clients := cs\<rparr>" m s'] by simp
    also have "\<dots> = (dataHandler s' m st)\<lparr>clients := cs\<rparr>"
      by (simp only: all dataHandler_complete [OF True]) simp
    finally show ?thesis .
  next
    case False
    then have "dataHandler s' m (st\<lparr>clients := cs\<rparr>) = (st\<lparr>clients := cs\<rparr>)\<lparr>mspResponses := ?v\<rparr>"
      using dataHandler_incomplete [of "st\<lparr>clients := cs\<rparr>" m s'] by simp
    also have "\<dots> = (dataHandler s' m st)\<lparr>clients := cs\<rparr>"
      by (simp only: swap dataHandler_incomplete [OF False])
    finally show ?thesis .
  qed
qed

lemma clients_dataHandler [simp]: "clients (dataHandler s' m st) = clients st"
  by (simp add: dataHandler_def Let_def)

lemma dataHandler_endHandler:
  "dataHandler s' m (endHandler s st) = endHandler s (dataHandler s' m st)"
  by (simp add: endHandler_def dataHandler_clients)

text \<open>
  C9. When the connection of a connected participant ends, that socket is removed from
  \<^verbatim>\<open>clients\<close> and nothing else changes: the identifiers reported stay, and any later
  message is handled exactly as if the connection had not ended, so the round completes
  from the other participants' reports as it would have.
\<close>

theorem end_leaves_reports:
  assumes "st = run (initialServer ids port) evs" and "s \<in> set (clients st)"
  shows "endHandler s st = st\<lparr>clients := remove1 s (clients st)\<rparr> \<and>
         set (clients (endHandler s st)) = set (clients st) - {s} \<and>
         mspResponses (endHandler s st) = mspResponses st \<and>
         collected (endHandler s st) m = collected st m \<and>
         dataHandler s' m (endHandler s st) = endHandler s (dataHandler s' m st) \<and>
         invoked (dataHandler s' m (endHandler s st)) = invoked (dataHandler s' m st) \<and>
         mspResponses (dataHandler s' m (endHandler s st)) = mspResponses (dataHandler s' m st)"
proof -
  have "serverInvariant st"
    using assms(1) by (simp add: serverInvariant_reached)
  then have d: "distinct (clients st)"
    by (simp add: serverInvariant_def)
  have e: "endHandler s st = st\<lparr>clients := remove1 s (clients st)\<rparr>"
    using assms(2) by (rule endHandler_connected)
  have c: "set (clients (endHandler s st)) = set (clients st) - {s}"
    using d by (simp add: e)
  have f: "invoked (endHandler s x) = invoked x" "mspResponses (endHandler s x) = mspResponses x" for x
    by (simp_all add: endHandler_def)
  have g: "collected (endHandler s st) m = collected st m"
    by (simp add: endHandler_def)
  have h: "dataHandler s' m (endHandler s st) = endHandler s (dataHandler s' m st)"
    by (rule dataHandler_endHandler)
  have i: "invoked (dataHandler s' m (endHandler s st)) = invoked (dataHandler s' m st)"
    by (simp only: h f)
  have j: "mspResponses (dataHandler s' m (endHandler s st)) = mspResponses (dataHandler s' m st)"
    by (simp only: h f)
  have k: "mspResponses (endHandler s st) = mspResponses st"
    by (rule f)
  from e c g h i j k show ?thesis
    by blast
qed

theorem end_leaves_reports_witness:
  "0 \<in> set (clients (run (initialServer [''A'', ''B''] None)
       [Connection, Connection, RequestResponses (Some 5000), Data 0 ''A''])) \<and>
   clients (endHandler 0 (run (initialServer [''A'', ''B''] None)
       [Connection, Connection, RequestResponses (Some 5000), Data 0 ''A''])) = [1] \<and>
   mspResponses (endHandler 0 (run (initialServer [''A'', ''B''] None)
       [Connection, Connection, RequestResponses (Some 5000), Data 0 ''A''])) = [''A''] \<and>
   invoked (dataHandler 1 ''B'' (endHandler 0 (run (initialServer [''A'', ''B''] None)
       [Connection, Connection, RequestResponses (Some 5000), Data 0 ''A'']))) = [0]"
proof -
  let ?st = "run (initialServer [''A'', ''B''] None)
       [Connection, Connection, RequestResponses (Some 5000), Data 0 ''A'']"
  have mem: "0 \<in> set (clients ?st)"
    by (simp add: server_eval)
  have ev: "invoked (dataHandler 1 ''B'' ?st) = [0]" "remove1 0 (clients ?st) = [1]"
    "mspResponses ?st = [''A'']"
    by (simp_all add: server_eval)
  note t = end_leaves_reports [OF refl mem, of "''B''" 1]
  from t have a: "endHandler 0 ?st = ?st\<lparr>clients := remove1 0 (clients ?st)\<rparr>"
    by (rule conjunct1)
  have b: "clients (endHandler 0 ?st) = remove1 0 (clients ?st)"
    by (subst a) simp
  from t have c: "mspResponses (endHandler 0 ?st) = mspResponses ?st"
    by blast
  from t have d: "invoked (dataHandler 1 ''B'' (endHandler 0 ?st)) = invoked (dataHandler 1 ''B'' ?st)"
    by blast
  from mem b c d show ?thesis
    by (simp only: ev)
qed

subsection \<open>Completion of a round\<close>

lemma waitResponsesCbs_handle: "\<exists>ks. waitResponsesCbs (handle st e) = waitResponsesCbs st @ ks"
  by (cases e) (simp_all add: connection_def Let_def dataHandler_def endHandler_def
      requestResponses_def sendCompleted_def elapse_def)

lemma waitResponsesCbs_dataHandler [simp]:
  "waitResponsesCbs (dataHandler s m st) = waitResponsesCbs st"
  by (simp add: dataHandler_def Let_def)

lemma invoked_not_data: "(\<forall>s m. e \<noteq> Data s m) \<Longrightarrow> invoked (handle st e) = invoked st"
  by (cases e) (simp_all add: connection_def Let_def endHandler_def
      requestResponses_def sendCompleted_def elapse_def)

lemma waiters_dataHandler_complete:
  assumes "length (collected st m) = length (externalMspIds st)"
    and "waitResponsesCbs st = [0..<length (waiters st)]"
    and "k < length (waiters st)"
  shows "waiters (dataHandler s m st) ! k = released (now st) (waiters st ! k)"
proof -
  let ?st1 = "st\<lparr>mspResponses := collected st m\<rparr>"
  have "waiters (dataHandler s m st) = waiters (foldl invokeCb ?st1 (waitResponsesCbs st))"
    by (simp add: dataHandler_complete [OF assms(1)])
  moreover have "waiters (foldl invokeCb ?st1 (waitResponsesCbs st)) ! k =
      (if k \<in> set (waitResponsesCbs st) then released (now ?st1) (waiters ?st1 ! k) else waiters ?st1 ! k)"
    using assms(3) by (intro waiters_invokeAll_nth) simp
  ultimately show ?thesis
    using assms(2,3) by simp
qed

lemma returned_dataHandler_settled:
  assumes "k < length (waiters st)" and "returned (waiters st ! k) \<noteq> Pending"
  shows "returned (waiters (dataHandler s m st) ! k) = returned (waiters st ! k)"
proof (cases "length (collected st m) = length (externalMspIds st)")
  case True
  let ?st1 = "st\<lparr>mspResponses := collected st m\<rparr>"
  have "waiters (dataHandler s m st) = waiters (foldl invokeCb ?st1 (waitResponsesCbs st))"
    by (simp add: dataHandler_complete [OF True])
  moreover have "waiters (foldl invokeCb ?st1 (waitResponsesCbs st)) ! k =
      (if k \<in> set (waitResponsesCbs st) then released (now ?st1) (waiters ?st1 ! k) else waiters ?st1 ! k)"
    using assms(1) by (intro waiters_invokeAll_nth) simp
  ultimately show ?thesis
    using assms(2) by (simp add: released_def resolve_settled)
next
  case False
  then show ?thesis
    by (simp add: dataHandler_incomplete)
qed

lemma length_waiters_handle:
  "length (waiters (handle st e)) =
     length (waiters st) + (case e of RequestResponses t \<Rightarrow> 1 | _ \<Rightarrow> 0)"
  by (cases e) (simp_all add: connection_def Let_def dataHandler_def endHandler_def
      requestResponses_def sendCompleted_def elapse_def)

lemma length_waiters_run:
  "length (waiters (run st evs)) =
     length (waiters st) + length (filter (\<lambda>e. case e of RequestResponses t \<Rightarrow> True | _ \<Rightarrow> False) evs)"
proof (induction evs rule: rev_induct)
  case Nil
  then show ?case by (simp add: run_def)
next
  case (snoc e evs)
  then show ?case
    by (simp add: run_snoc length_waiters_handle split: event.split)
qed

lemma cbs_reached:
  "waitResponsesCbs (run (initialServer ids port) evs) = [0..<length (waiters (run (initialServer ids port) evs))]"
  using serverInvariant_reached [of ids port evs] by (simp add: serverInvariant_def)

lemma externalMspIds_handle [simp]: "externalMspIds (handle st e) = externalMspIds st"
  by (cases e) (simp_all add: connection_def Let_def dataHandler_def endHandler_def
      requestResponses_def sendCompleted_def elapse_def)

lemma externalMspIds_run [simp]: "externalMspIds (run st evs) = externalMspIds st"
  unfolding run_def by (induction evs arbitrary: st) simp_all

lemma externalMspIds_reached: "externalMspIds (run (initialServer ids port) evs) = ids"
  by (simp add: initialServer_def)

lemma sizes_lengths:
  assumes "distinct (externalMspIds st)"
  shows "(card (set (collected st m)) = card (set (externalMspIds st))) =
         (length (collected st m) = length (externalMspIds st))"
  using distinct_card [OF distinct_collected, of st m] distinct_card [OF assms] by simp

text \<open>
  C4. By the specification the round completes the instant the set of the identifiers
  reported has the size of the expected set. The data handler compares the lengths of the
  two arrays (line 51), and the constructor stores an \<^verbatim>\<open>externalMspIds\<close> given to it
  as it is (lines 26-27), where it makes the one it derives duplicate-free (line 31).
  With \<^verbatim>\<open>externalMspIds\<close> given as \<open>[A, A]\<close> and a call waiting, the report \<open>A\<close>
  makes the two sets equal in size, yet no callback is invoked, the reported set is not
  emptied and the call stays pending.
\<close>

theorem completion_missed_with_duplicate:
  "card (set (collected (run (initialServer [''A'', ''A''] None)
       [Connection, RequestResponses (Some 50)]) ''A'')) =
     card (set (externalMspIds (run (initialServer [''A'', ''A''] None)
       [Connection, RequestResponses (Some 50)]))) \<and>
   invoked (dataHandler 0 ''A'' (run (initialServer [''A'', ''A''] None)
       [Connection, RequestResponses (Some 50)])) = [] \<and>
   mspResponses (dataHandler 0 ''A'' (run (initialServer [''A'', ''A''] None)
       [Connection, RequestResponses (Some 50)])) = [''A''] \<and>
   returned (waiters (dataHandler 0 ''A'' (run (initialServer [''A'', ''A''] None)
       [Connection, RequestResponses (Some 50)])) ! 0) = Pending"
  by (simp add: server_eval)

text \<open>
  Completion of a round when \<^verbatim>\<open>externalMspIds\<close> has no duplicate, as the derived
  one always has none. The sizes of the two sets are then equal exactly when the lengths
  the data handler compares are, and the instant a message
  brings the set of the identifiers reported to the size of the expected set, the data
  handler invokes every registered callback once, in the order of registration (the
  callbacks are those of the calls \<open>0, 1, \<dots>\<close> made so far, each registered once), so that
  every call still pending is resolved and its timer cleared; it empties the reported set
  and clears the flag. A message that does not bring the size there invokes no callback
  and only records the identifiers, and no other event invokes a callback.
\<close>

theorem completion_releases_and_resets:
  assumes "st = run (initialServer ids port) evs" and "distinct ids"
  shows "externalMspIds st = ids \<and>
         ((card (set (collected st m)) = card (set ids)) =
            (length (collected st m) = length (externalMspIds st))) \<and>
         (card (set (collected st m)) = card (set ids) \<longrightarrow>
            mspResponses (dataHandler s m st) = [] \<and>
            requesting (dataHandler s m st) = False \<and>
            waitResponsesCbs st = [0..<length (waiters st)] \<and>
            invoked (dataHandler s m st) = invoked st @ [0..<length (waiters st)] \<and>
            (\<forall>k < length (waiters st).
               waiters (dataHandler s m st) ! k = released (now st) (waiters st ! k) \<and>
               \<not> armed (waiters (dataHandler s m st) ! k) \<and>
               (returned (waiters st ! k) = Pending \<longrightarrow>
                  returned (waiters (dataHandler s m st) ! k) = Fulfilled (now st) ()))) \<and>
         (card (set (collected st m)) \<noteq> card (set ids) \<longrightarrow>
            dataHandler s m st = st\<lparr>mspResponses := collected st m\<rparr> \<and>
            invoked (dataHandler s m st) = invoked st) \<and>
         (\<forall>e. (\<forall>s m. e \<noteq> Data s m) \<longrightarrow> invoked (handle st e) = invoked st)"
proof -
  have ids: "externalMspIds st = ids"
    unfolding assms(1) by (rule externalMspIds_reached)
  have sz: "(card (set (collected st m)) = card (set ids)) =
            (length (collected st m) = length (externalMspIds st))"
    using sizes_lengths [of st m] assms(2) by (simp add: ids)
  have cbs: "waitResponsesCbs st = [0..<length (waiters st)]"
    unfolding assms(1) by (rule cbs_reached)
  have complete: "mspResponses (dataHandler s m st) = [] \<and>
            requesting (dataHandler s m st) = False \<and>
            waitResponsesCbs st = [0..<length (waiters st)] \<and>
            invoked (dataHandler s m st) = invoked st @ [0..<length (waiters st)] \<and>
            (\<forall>k < length (waiters st).
               waiters (dataHandler s m st) ! k = released (now st) (waiters st ! k) \<and>
               \<not> armed (waiters (dataHandler s m st) ! k) \<and>
               (returned (waiters st ! k) = Pending \<longrightarrow>
                  returned (waiters (dataHandler s m st) ! k) = Fulfilled (now st) ()))"
    if c: "card (set (collected st m)) = card (set ids)"
  proof -
    from c sz have len: "length (collected st m) = length (externalMspIds st)"
      by simp
    have each: "waiters (dataHandler s m st) ! k = released (now st) (waiters st ! k) \<and>
               \<not> armed (waiters (dataHandler s m st) ! k) \<and>
               (returned (waiters st ! k) = Pending \<longrightarrow>
                  returned (waiters (dataHandler s m st) ! k) = Fulfilled (now st) ())"
      if "k < length (waiters st)" for k
      using waiters_dataHandler_complete [OF len cbs that] by (simp add: released_def)
    have "mspResponses (dataHandler s m st) = [] \<and> requesting (dataHandler s m st) = False \<and>
        invoked (dataHandler s m st) = invoked st @ [0..<length (waiters st)]"
      using cbs by (simp add: dataHandler_complete [OF len])
    with cbs each show ?thesis
      by blast
  qed
  have incomplete: "dataHandler s m st = st\<lparr>mspResponses := collected st m\<rparr> \<and>
            invoked (dataHandler s m st) = invoked st"
    if c: "card (set (collected st m)) \<noteq> card (set ids)"
  proof -
    from c sz have "length (collected st m) \<noteq> length (externalMspIds st)"
      by simp
    then show ?thesis
      by (simp add: dataHandler_incomplete)
  qed
  have other: "\<forall>e. (\<forall>s m. e \<noteq> Data s m) \<longrightarrow> invoked (handle st e) = invoked st"
    using invoked_not_data by blast
  from complete have c3: "card (set (collected st m)) = card (set ids) \<longrightarrow>
            mspResponses (dataHandler s m st) = [] \<and>
            requesting (dataHandler s m st) = False \<and>
            waitResponsesCbs st = [0..<length (waiters st)] \<and>
            invoked (dataHandler s m st) = invoked st @ [0..<length (waiters st)] \<and>
            (\<forall>k < length (waiters st).
               waiters (dataHandler s m st) ! k = released (now st) (waiters st ! k) \<and>
               \<not> armed (waiters (dataHandler s m st) ! k) \<and>
               (returned (waiters st ! k) = Pending \<longrightarrow>
                  returned (waiters (dataHandler s m st) ! k) = Fulfilled (now st) ()))"
    by (rule impI)
  from incomplete have c4: "card (set (collected st m)) \<noteq> card (set ids) \<longrightarrow>
            dataHandler s m st = st\<lparr>mspResponses := collected st m\<rparr> \<and>
            invoked (dataHandler s m st) = invoked st"
    by (rule impI)
  show ?thesis
    by (intro conjI) (fact ids sz c3 c4 other)+
qed

theorem completion_releases_and_resets_witness:
  "distinct [''A'', ''B''] \<and>
   card (set (collected (run (initialServer [''A'', ''B''] None)
       [Connection, RequestResponses (Some 5000)]) ''A'')) \<noteq> card (set [''A'', ''B'']) \<and>
   invoked (dataHandler 0 ''A'' (run (initialServer [''A'', ''B''] None)
       [Connection, RequestResponses (Some 5000)])) = [] \<and>
   card (set (collected (run (initialServer [''A'', ''B''] None)
       [Connection, RequestResponses (Some 5000), Data 0 ''A'']) ''B'')) = card (set [''A'', ''B'']) \<and>
   invoked (dataHandler 0 ''B'' (run (initialServer [''A'', ''B''] None)
       [Connection, RequestResponses (Some 5000), Data 0 ''A''])) = [0] \<and>
   mspResponses (dataHandler 0 ''B'' (run (initialServer [''A'', ''B''] None)
       [Connection, RequestResponses (Some 5000), Data 0 ''A''])) = [] \<and>
   returned (waiters (dataHandler 0 ''B'' (run (initialServer [''A'', ''B''] None)
       [Connection, RequestResponses (Some 5000), Data 0 ''A''])) ! 0) = Fulfilled 0 () \<and>
   invoked (handle (run (initialServer [''A'', ''B''] None)
       [Connection, RequestResponses (Some 5000), Data 0 ''A'']) (Elapse 6000)) = []"
proof -
  let ?st0 = "run (initialServer [''A'', ''B''] None) [Connection, RequestResponses (Some 5000)]"
  let ?st1 = "run (initialServer [''A'', ''B''] None)
       [Connection, RequestResponses (Some 5000), Data 0 ''A'']"
  have dist: "distinct [''A'', ''B'']"
    by simp
  have h0: "card (set (collected ?st0 ''A'')) \<noteq> card (set [''A'', ''B''])"
    and i0: "invoked ?st0 = []"
    by (simp_all add: server_eval)
  have h1: "card (set (collected ?st1 ''B'')) = card (set [''A'', ''B''])"
    and i1: "invoked ?st1 = []" and w1: "length (waiters ?st1) = 1"
    and p1: "returned (waiters ?st1 ! 0) = Pending" and n1: "now ?st1 = 0"
    by (simp_all add: server_eval)
  note t0 = completion_releases_and_resets [OF refl dist, where port = None
      and evs = "[Connection, RequestResponses (Some 5000)]" and m = "''A''" and s = 0]
  note t = completion_releases_and_resets [OF refl dist, where port = None
      and evs = "[Connection, RequestResponses (Some 5000), Data 0 ''A'']" and m = "''B''" and s = 0]
  note t0' = t0 [THEN conjunct2, THEN conjunct2, THEN conjunct2, THEN conjunct1, THEN mp, OF h0]
  note t3 = t [THEN conjunct2, THEN conjunct2, THEN conjunct1, THEN mp, OF h1]
  note t5 = t [THEN conjunct2, THEN conjunct2, THEN conjunct2, THEN conjunct2]
  from t0' i0 have a: "invoked (dataHandler 0 ''A'' ?st0) = []"
    by simp
  from t3 have "invoked (dataHandler 0 ''B'' ?st1) = invoked ?st1 @ [0..<length (waiters ?st1)]"
    by blast
  then have b: "invoked (dataHandler 0 ''B'' ?st1) = [0]"
    by (simp only: i1 w1) simp
  from t3 have c: "mspResponses (dataHandler 0 ''B'' ?st1) = []"
    by blast
  from t3 have "\<forall>k < length (waiters ?st1). returned (waiters ?st1 ! k) = Pending \<longrightarrow>
      returned (waiters (dataHandler 0 ''B'' ?st1) ! k) = Fulfilled (now ?st1) ()"
    by blast
  with w1 p1 have "returned (waiters (dataHandler 0 ''B'' ?st1) ! 0) = Fulfilled (now ?st1) ()"
    by (metis zero_less_one)
  then have d: "returned (waiters (dataHandler 0 ''B'' ?st1) ! 0) = Fulfilled 0 ()"
    by (simp only: n1)
  from t5 have "(\<forall>s m. Elapse 6000 \<noteq> Data s m) \<longrightarrow>
      invoked (handle ?st1 (Elapse 6000)) = invoked ?st1"
    by (rule spec)
  then have "invoked (handle ?st1 (Elapse 6000)) = invoked ?st1"
    by (simp del: handle.simps)
  then have e: "invoked (handle ?st1 (Elapse 6000)) = []"
    by (simp only: i1)
  show ?thesis
    by (intro conjI) (fact dist h0 a h1 b c d e)+
qed

subsection \<open>The callbacks registered\<close>

text \<open>
  C10. A completed round resets \<^verbatim>\<open>mspResponses\<close> and \<^verbatim>\<open>requesting\<close> and nothing else:
  \<^verbatim>\<open>waitResponsesCbs\<close> is never shortened by any event. In every state the server
  reaches it holds the callback of every call of \<^verbatim>\<open>requestResponses\<close> made so far,
  whether the promise of the call is pending, resolved or rejected by its timer, and
  every completion invokes all of them again; for a call already settled the invocation
  leaves the promise as it was.
\<close>

theorem callbacks_never_unregistered:
  assumes "st = run (initialServer ids port) evs"
  shows "waitResponsesCbs st = [0..<length (waiters st)] \<and>
         length (waiters st) =
           length (filter (\<lambda>e. case e of RequestResponses t \<Rightarrow> True | _ \<Rightarrow> False) evs) \<and>
         (\<forall>e. \<exists>ks. waitResponsesCbs (handle st e) = waitResponsesCbs st @ ks) \<and>
         waitResponsesCbs (dataHandler s m st) = waitResponsesCbs st \<and>
         (length (collected st m) = length (externalMspIds st) \<longrightarrow>
            dataHandler s m st =
              (foldl invokeCb (st\<lparr>mspResponses := collected st m\<rparr>) (waitResponsesCbs st))
                \<lparr>mspResponses := [], requesting := False\<rparr> \<and>
            invoked (dataHandler s m st) = invoked st @ [0..<length (waiters st)]) \<and>
         (\<forall>k < length (waiters st). returned (waiters st ! k) \<noteq> Pending \<longrightarrow>
            returned (waiters (dataHandler s m st) ! k) = returned (waiters st ! k))"
proof -
  have cbs: "waitResponsesCbs st = [0..<length (waiters st)]"
    unfolding assms by (rule cbs_reached)
  have n: "length (waiters st) =
           length (filter (\<lambda>e. case e of RequestResponses t \<Rightarrow> True | _ \<Rightarrow> False) evs)"
    unfolding assms by (simp add: length_waiters_run) (simp add: initialServer_def)
  have c: "dataHandler s m st =
              (foldl invokeCb (st\<lparr>mspResponses := collected st m\<rparr>) (waitResponsesCbs st))
                \<lparr>mspResponses := [], requesting := False\<rparr> \<and>
            invoked (dataHandler s m st) = invoked st @ [0..<length (waiters st)]"
    if "length (collected st m) = length (externalMspIds st)"
    using cbs by (simp add: dataHandler_complete [OF that])
  have h: "\<forall>e. \<exists>ks. waitResponsesCbs (handle st e) = waitResponsesCbs st @ ks"
    by (simp only: waitResponsesCbs_handle) simp
  have d: "waitResponsesCbs (dataHandler s m st) = waitResponsesCbs st"
    by simp
  have r: "\<forall>k < length (waiters st). returned (waiters st ! k) \<noteq> Pending \<longrightarrow>
            returned (waiters (dataHandler s m st) ! k) = returned (waiters st ! k)"
    by (simp add: returned_dataHandler_settled)
  from cbs n c h d r show ?thesis
    by blast
qed

theorem callbacks_never_unregistered_witness:
  "waitResponsesCbs (run (initialServer [''A''] None)
      [Connection, RequestResponses (Some 50), Elapse 60, Data 0 ''A'', RequestResponses None]) = [0, 1] \<and>
   returned (waiters (run (initialServer [''A''] None)
      [Connection, RequestResponses (Some 50), Elapse 60, Data 0 ''A'', RequestResponses None]) ! 0) =
     Rejected 50 timeoutError \<and>
   invoked (run (initialServer [''A''] None)
      [Connection, RequestResponses (Some 50), Elapse 60, Data 0 ''A'', RequestResponses None]) = [0] \<and>
   length (collected (run (initialServer [''A''] None)
      [Connection, RequestResponses (Some 50), Elapse 60, Data 0 ''A'', RequestResponses None]) ''A'') = 1 \<and>
   invoked (dataHandler 0 ''A'' (run (initialServer [''A''] None)
      [Connection, RequestResponses (Some 50), Elapse 60, Data 0 ''A'', RequestResponses None])) = [0, 0, 1] \<and>
   returned (waiters (dataHandler 0 ''A'' (run (initialServer [''A''] None)
      [Connection, RequestResponses (Some 50), Elapse 60, Data 0 ''A'', RequestResponses None])) ! 0) =
     Rejected 50 timeoutError"
proof -
  let ?st = "run (initialServer [''A''] None)
      [Connection, RequestResponses (Some 50), Elapse 60, Data 0 ''A'', RequestResponses None]"
  have ev: "length (waiters ?st) = 2" "returned (waiters ?st ! 0) = Rejected 50 timeoutError"
    "invoked ?st = [0]" "length (externalMspIds ?st) = 1"
    by (simp_all add: server_eval)
  have h: "length (collected ?st ''A'') = length (externalMspIds ?st)"
    by (simp add: server_eval)
  have up: "[0..<2] = [0, 1]"
    by (simp add: upt_rec)
  note t = callbacks_never_unregistered [OF refl, where ids = "[''A'']" and port = None
      and evs = "[Connection, RequestResponses (Some 50), Elapse 60, Data 0 ''A'', RequestResponses None]"
      and m = "''A''" and s = 0]
  from t have a: "waitResponsesCbs ?st = [0..<length (waiters ?st)]"
    by (rule conjunct1)
  from t h have b: "invoked (dataHandler 0 ''A'' ?st) = invoked ?st @ [0..<length (waiters ?st)]"
    by blast
  from t have "\<forall>k < length (waiters ?st). returned (waiters ?st ! k) \<noteq> Pending \<longrightarrow>
            returned (waiters (dataHandler 0 ''A'' ?st) ! k) = returned (waiters ?st ! k)"
    by blast
  then have c: "returned (waiters (dataHandler 0 ''A'' ?st) ! 0) = returned (waiters ?st ! 0)"
    by (simp add: ev)
  from a b c h show ?thesis
    by (simp only: ev up) simp
qed

subsection \<open>Timers and promises\<close>

lemma waiters_handle_nth:
  assumes "j < length (waiters st)"
  shows "j < length (waiters (handle st e)) \<and>
         deadline (waiters (handle st e) ! j) = deadline (waiters st ! j)"
proof (cases e)
  case (Data s m)
  show ?thesis
  proof (cases "length (collected st m) = length (externalMspIds st)")
    case True
    let ?st1 = "st\<lparr>mspResponses := collected st m\<rparr>"
    have "waiters (dataHandler s m st) = waiters (foldl invokeCb ?st1 (waitResponsesCbs st))"
      by (simp add: dataHandler_complete [OF True])
    moreover have "waiters (foldl invokeCb ?st1 (waitResponsesCbs st)) ! j =
      (if j \<in> set (waitResponsesCbs st) then released (now ?st1) (waiters ?st1 ! j) else waiters ?st1 ! j)"
      using assms by (intro waiters_invokeAll_nth) simp
    ultimately show ?thesis
      using assms Data by (simp add: released_def)
  next
    case False
    then show ?thesis
      using assms Data by (simp add: dataHandler_incomplete)
  qed
next
  case (RequestResponses timeout)
  then show ?thesis
    using assms by (simp add: requestResponses_def Let_def nth_append)
next
  case (Elapse d)
  then show ?thesis
    using assms by (simp add: elapse_def fireTimer_def)
qed (use assms in \<open>simp_all add: connection_def Let_def endHandler_def sendCompleted_def\<close>)

lemma returned_handle_settled:
  assumes "j < length (waiters st)" and "returned (waiters st ! j) \<noteq> Pending"
  shows "returned (waiters (handle st e) ! j) = returned (waiters st ! j)"
proof (cases e)
  case (Data s m)
  then show ?thesis
    using assms by (simp add: returned_dataHandler_settled)
next
  case (RequestResponses timeout)
  then show ?thesis
    using assms by (simp add: requestResponses_def Let_def nth_append)
next
  case (Elapse d)
  then show ?thesis
    using assms by (simp add: elapse_def fireTimer_def reject_settled)
qed (simp_all add: connection_def Let_def endHandler_def sendCompleted_def)

lemma waiters_run_nth:
  "j < length (waiters st) \<Longrightarrow>
   j < length (waiters (run st evs)) \<and> deadline (waiters (run st evs) ! j) = deadline (waiters st ! j)"
proof (induction evs rule: rev_induct)
  case Nil
  then show ?case by (simp add: run_def)
next
  case (snoc e evs)
  then show ?case
    using waiters_handle_nth [of j "run st evs" e] by (simp add: run_snoc)
qed

lemma returned_run_settled:
  "j < length (waiters st) \<Longrightarrow> returned (waiters st ! j) \<noteq> Pending \<Longrightarrow>
   returned (waiters (run st evs) ! j) = returned (waiters st ! j)"
proof (induction evs rule: rev_induct)
  case Nil
  then show ?case by (simp add: run_def)
next
  case (snoc e evs)
  then show ?case
    using returned_handle_settled [of j "run st evs" e] waiters_run_nth [of j st evs]
    by (simp add: run_snoc)
qed

lemma timerConsistent_nth:
  "serverInvariant st \<Longrightarrow> j < length (waiters st) \<Longrightarrow> timerConsistent (now st) (waiters st ! j)"
  by (simp add: serverInvariant_def list_all_length)

lemma waiting_handle:
  assumes inv: "serverInvariant st" and j: "j < length (waiters st)"
    and w: "waiting (waiters st ! j)"
    and i: "invoked (handle st e) = invoked st"
  shows "waiting (waiters (handle st e) ! j)"
proof (cases e)
  case (Data s m)
  have cbs: "waitResponsesCbs st = [0..<length (waiters st)]"
    using inv by (simp add: serverInvariant_def)
  have "length (collected st m) \<noteq> length (externalMspIds st)"
  proof
    assume "length (collected st m) = length (externalMspIds st)"
    then have "invoked (dataHandler s m st) = invoked st @ [0..<length (waiters st)]"
      using cbs by (simp add: dataHandler_complete)
    with i Data j show False by simp
  qed
  then show ?thesis
    using w Data by (simp add: dataHandler_incomplete)
next
  case (RequestResponses timeout)
  then show ?thesis
    using w j by (simp add: requestResponses_def Let_def nth_append)
next
  case (Elapse d)
  have "timerConsistent (now st) (waiters st ! j)"
    using inv j by (rule timerConsistent_nth)
  then show ?thesis
    using w j Elapse
    by (auto simp: elapse_def fireTimer_def waiting_def timerConsistent_def)
qed (use w in \<open>simp_all add: connection_def Let_def endHandler_def sendCompleted_def\<close>)

lemma invoked_run_prefix: "\<exists>xs. invoked (run st evs) = invoked st @ xs"
proof (induction evs rule: rev_induct)
  case Nil
  then show ?case by (simp add: run_def)
next
  case (snoc e evs)
  then obtain xs where "invoked (run st evs) = invoked st @ xs" by blast
  moreover obtain ys where "invoked (handle (run st evs) e) = invoked (run st evs) @ ys"
    using invoked_handle_prefix by blast
  ultimately show ?case
    by (simp add: run_snoc)
qed

lemma waiting_run:
  assumes inv: "serverInvariant st" and j: "j < length (waiters st)"
    and w: "waiting (waiters st ! j)"
  shows "invoked (run st evs) = invoked st \<Longrightarrow> waiting (waiters (run st evs) ! j)"
proof (induction evs rule: rev_induct)
  case Nil
  then show ?case using w by (simp add: run_def)
next
  case (snoc e evs)
  obtain xs where xs: "invoked (run st evs) = invoked st @ xs"
    using invoked_run_prefix by blast
  obtain ys where ys: "invoked (handle (run st evs) e) = invoked (run st evs) @ ys"
    using invoked_handle_prefix by blast
  from snoc.prems xs ys have "xs = []" "ys = []"
    by (simp_all add: run_snoc)
  with xs ys have a: "invoked (run st evs) = invoked st"
    and b: "invoked (handle (run st evs) e) = invoked (run st evs)"
    by simp_all
  have "waiting (waiters (run st evs) ! j)"
    using a by (rule snoc.IH)
  moreover have "serverInvariant (run st evs)"
    using inv by (rule serverInvariant_run)
  moreover have "j < length (waiters (run st evs))"
    using waiters_run_nth [OF j] by simp
  ultimately show ?case
    using b by (simp add: run_snoc waiting_handle)
qed

lemma elapse_due:
  assumes inv: "serverInvariant st" and j: "j < length (waiters st)"
    and due: "deadline (waiters st ! j) \<le> now st + d"
  shows "returned (waiters (elapse d st) ! j) \<noteq> Pending"
proof -
  have "timerConsistent (now st) (waiters st ! j)"
    using inv j by (rule timerConsistent_nth)
  then show ?thesis
    using j due by (auto simp: elapse_def fireTimer_def timerConsistent_def)
qed

lemma requestResponses_result:
  "requestResponses timeout st =
     ((foldl (\<lambda>acc s. socketWrite s ''request'' acc)
        (st\<lparr>waiters := waiters st @
              [\<lparr>deadline = now st + timerDelay (requestedTimeout timeout),
                armed = True, returned = Pending\<rparr>],
            waitResponsesCbs := waitResponsesCbs st @ [length (waiters st)]\<rparr>)
        (clients st)),
      length (waiters st))"
  by (simp add: requestResponses_def Let_def)

text \<open>
  C7. By the specification all the calls waiting are released when the expected set is
  satisfied. The data handler releases them when the array of the identifiers reported
  is as long as \<^verbatim>\<open>externalMspIds\<close> (line 51), which a given \<^verbatim>\<open>externalMspIds\<close>
  with a duplicate (stored as it is, lines 26-27) never allows. With
  \<^verbatim>\<open>externalMspIds\<close> given as \<open>[A, A]\<close> and a call \<^verbatim>\<open>requestResponses(50)\<close>, the
  report \<open>A\<close> brings every expected identifier, yet no callback is invoked and the call
  stays pending; 50 milliseconds after the call its timer rejects it.
\<close>

theorem waiter_not_released_with_duplicate:
  "set (externalMspIds (run (initialServer [''A'', ''A''] None)
       [Connection, RequestResponses (Some 50), Data 0 ''A''])) =
     set (mspResponses (run (initialServer [''A'', ''A''] None)
       [Connection, RequestResponses (Some 50), Data 0 ''A''])) \<and>
   invoked (run (initialServer [''A'', ''A''] None)
       [Connection, RequestResponses (Some 50), Data 0 ''A'']) = [] \<and>
   returned (waiters (run (initialServer [''A'', ''A''] None)
       [Connection, RequestResponses (Some 50), Data 0 ''A'']) ! 0) = Pending \<and>
   returned (waiters (run (initialServer [''A'', ''A''] None)
       [Connection, RequestResponses (Some 50), Data 0 ''A'', Elapse 50]) ! 0) =
     Rejected 50 timeoutError"
  by (simp add: server_eval)

text \<open>
  What a call does otherwise. A call of \<^verbatim>\<open>requestResponses(timeout)\<close> (60000 when no timeout is
  given) arms a timer of its own, registers its callback and leaves the round state (the
  identifiers reported and expected) as it is. The delay of the timer is the timeout when
  that is from 1 to 2147483647 milliseconds, and 1 millisecond otherwise. If no round
  completes before the time reaches the deadline, the promise is rejected with the timeout
  error, and stays so. When a round completes, every timer is cleared and every promise
  is settled at once; a call still pending then is resolved at that time and stays
  resolved, whatever time passes afterwards. A promise once settled never changes. When
  \<^verbatim>\<open>externalMspIds\<close> has no duplicate, the round completes exactly when the set of the
  identifiers reported reaches the size of the expected set.
\<close>

theorem requestResponses_times_out_or_is_released:
  assumes "st = run (initialServer ids port) evs0"
    and "st1 = fst (requestResponses timeout st)"
    and "k = snd (requestResponses timeout st)"
    and "t = requestedTimeout timeout"
    and "d = timerDelay t"
  shows "k = length (waiters st) \<and>
         waiters st1 = waiters st @ [\<lparr>deadline = now st + d, armed = True, returned = Pending\<rparr>] \<and>
         waitResponsesCbs st1 = waitResponsesCbs st @ [k] \<and>
         mspResponses st1 = mspResponses st \<and> externalMspIds st1 = externalMspIds st \<and>
         now st1 = now st \<and>
         t = (case timeout of None \<Rightarrow> 60000 | Some n \<Rightarrow> n) \<and>
         d = (if 1 \<le> t \<and> t \<le> 2147483647 then nat t else 1) \<and>
         (\<forall>evs. k < length (waiters (run st1 evs)) \<and>
            deadline (waiters (run st1 evs) ! k) = now st + d) \<and>
         (\<forall>evs e evs'. invoked (run st1 evs) = invoked st1 \<and> now st + d \<le> now (run st1 evs) + e \<longrightarrow>
            returned (waiters (run st1 (evs @ Elapse e # evs')) ! k) = Rejected (now st + d) timeoutError) \<and>
         (\<forall>evs s m evs'. length (collected (run st1 evs) m) = length (externalMspIds (run st1 evs)) \<longrightarrow>
            (\<forall>j < length (waiters (run st1 evs)).
               \<not> armed (waiters (run st1 (evs @ [Data s m])) ! j) \<and>
               returned (waiters (run st1 (evs @ [Data s m])) ! j) \<noteq> Pending) \<and>
            (returned (waiters (run st1 evs) ! k) = Pending \<longrightarrow>
               returned (waiters (run st1 (evs @ Data s m # evs')) ! k) =
                 Fulfilled (now (run st1 evs)) ())) \<and>
         (\<forall>evs evs'. returned (waiters (run st1 evs) ! k) \<noteq> Pending \<longrightarrow>
            returned (waiters (run st1 (evs @ evs')) ! k) = returned (waiters (run st1 evs) ! k)) \<and>
         (distinct ids \<longrightarrow>
            (\<forall>evs m. (length (collected (run st1 evs) m) = length (externalMspIds (run st1 evs))) =
               (card (set (collected (run st1 evs) m)) = card (set ids))))"
proof -
  have inv: "serverInvariant st"
    unfolding assms(1) by (rule serverInvariant_reached)
  have st1: "st1 = handle st (RequestResponses timeout)"
    by (simp add: assms(2))
  have inv1: "serverInvariant st1"
    unfolding st1 using inv by (rule serverInvariant_handle)
  have k: "k = length (waiters st)"
    by (simp add: assms(3) requestResponses_result)
  have w1: "waiters st1 = waiters st @ [\<lparr>deadline = now st + d, armed = True, returned = Pending\<rparr>]"
    by (simp add: assms(2,4,5) requestResponses_result)
  have f1: "waitResponsesCbs st1 = waitResponsesCbs st @ [k]" "mspResponses st1 = mspResponses st"
    "externalMspIds st1 = externalMspIds st" "now st1 = now st"
    by (simp_all add: assms(2) k requestResponses_result)
  have tt: "t = (case timeout of None \<Rightarrow> 60000 | Some n \<Rightarrow> n)"
    by (simp add: assms(4) requestedTimeout_def)
  have dd: "d = (if 1 \<le> t \<and> t \<le> 2147483647 then nat t else 1)"
    by (simp add: assms(5) timerDelay_def TIMEOUT_MAX_def)
  have k1: "k < length (waiters st1)"
    by (simp add: w1 k)
  have wk: "waiters st1 ! k = \<lparr>deadline = now st + d, armed = True, returned = Pending\<rparr>"
    by (simp add: w1 k)
  have dl: "k < length (waiters (run st1 evs)) \<and> deadline (waiters (run st1 evs) ! k) = now st + d" for evs
    using waiters_run_nth [OF k1, of evs] by (simp add: wk)
  have invr: "serverInvariant (run st1 evs)" for evs
    using inv1 by (rule serverInvariant_run)
  have stable: "returned (waiters (run st1 (evs @ evs')) ! k) = returned (waiters (run st1 evs) ! k)"
    if "returned (waiters (run st1 evs) ! k) \<noteq> Pending" for evs evs'
    using returned_run_settled [of k "run st1 evs" evs'] dl [of evs] that by (simp add: run_append)
  have timeout: "returned (waiters (run st1 (evs @ Elapse e # evs')) ! k) = Rejected (now st + d) timeoutError"
    if a: "invoked (run st1 evs) = invoked st1" and b: "now st + d \<le> now (run st1 evs) + e" for evs e evs'
  proof -
    let ?st2 = "run st1 evs"
    have w2: "waiting (waiters ?st2 ! k)"
      using inv1 k1 _ a by (rule waiting_run) (simp add: wk waiting_def)
    have i3: "invoked (handle ?st2 (Elapse e)) = invoked ?st2"
      by (simp add: elapse_def)
    have "waiting (waiters (handle ?st2 (Elapse e)) ! k)"
      using invr dl [THEN conjunct1] w2 i3 by (rule waiting_handle)
    moreover have "returned (waiters (handle ?st2 (Elapse e)) ! k) \<noteq> Pending"
      using elapse_due [OF invr, of k evs e] dl [of evs] b by simp
    moreover have "deadline (waiters (handle ?st2 (Elapse e)) ! k) = now st + d"
      using dl [of "evs @ [Elapse e]"] by (simp add: run_snoc)
    ultimately have r: "returned (waiters (run st1 (evs @ [Elapse e])) ! k) = Rejected (now st + d) timeoutError"
      by (simp add: waiting_def run_snoc)
    have "returned (waiters (run st1 ((evs @ [Elapse e]) @ evs')) ! k) =
          returned (waiters (run st1 (evs @ [Elapse e])) ! k)"
      by (rule stable) (simp add: r)
    with r show ?thesis by simp
  qed
  have release: "(\<forall>j < length (waiters (run st1 evs)).
               \<not> armed (waiters (run st1 (evs @ [Data s m])) ! j) \<and>
               returned (waiters (run st1 (evs @ [Data s m])) ! j) \<noteq> Pending) \<and>
            (returned (waiters (run st1 evs) ! k) = Pending \<longrightarrow>
               returned (waiters (run st1 (evs @ Data s m # evs')) ! k) =
                 Fulfilled (now (run st1 evs)) ())"
    if c: "length (collected (run st1 evs) m) = length (externalMspIds (run st1 evs))" for evs s m evs'
  proof -
    let ?st2 = "run st1 evs"
    have cbs: "waitResponsesCbs ?st2 = [0..<length (waiters ?st2)]"
      using invr [of evs] by (simp add: serverInvariant_def)
    have each: "waiters (dataHandler s m ?st2) ! j = released (now ?st2) (waiters ?st2 ! j)"
      if "j < length (waiters ?st2)" for j
      using c cbs that by (rule waiters_dataHandler_complete)
    have 1: "\<forall>j < length (waiters ?st2).
               \<not> armed (waiters (run st1 (evs @ [Data s m])) ! j) \<and>
               returned (waiters (run st1 (evs @ [Data s m])) ! j) \<noteq> Pending"
      by (simp add: run_snoc each released_def)
    have 2: "returned (waiters (run st1 (evs @ Data s m # evs')) ! k) = Fulfilled (now ?st2) ()"
      if p: "returned (waiters ?st2 ! k) = Pending"
    proof -
      have r: "returned (waiters (run st1 (evs @ [Data s m])) ! k) = Fulfilled (now ?st2) ()"
        using each [of k] dl [of evs] p by (simp add: run_snoc released_def)
      have "returned (waiters (run st1 ((evs @ [Data s m]) @ evs')) ! k) =
          returned (waiters (run st1 (evs @ [Data s m])) ! k)"
        by (rule stable) (simp add: r)
      with r show ?thesis by simp
    qed
    from 1 2 show ?thesis by blast
  qed
  have ids1: "externalMspIds (run st1 evs) = ids" for evs
    by (simp add: f1 assms(1) initialServer_def)
  have sizes: "distinct ids \<longrightarrow>
            (\<forall>evs m. (length (collected (run st1 evs) m) = length (externalMspIds (run st1 evs))) =
               (card (set (collected (run st1 evs) m)) = card (set ids)))"
  proof (intro impI allI)
    fix evs m assume "distinct ids"
    then have "distinct (externalMspIds (run st1 evs))"
      by (simp only: ids1)
    from sizes_lengths [OF this, of m]
    show "(length (collected (run st1 evs) m) = length (externalMspIds (run st1 evs))) =
               (card (set (collected (run st1 evs) m)) = card (set ids))"
      by (simp only: ids1)
  qed
  have c9: "\<forall>evs. k < length (waiters (run st1 evs)) \<and>
            deadline (waiters (run st1 evs) ! k) = now st + d"
    using dl by blast
  have c10: "\<forall>evs e evs'. invoked (run st1 evs) = invoked st1 \<and> now st + d \<le> now (run st1 evs) + e \<longrightarrow>
            returned (waiters (run st1 (evs @ Elapse e # evs')) ! k) = Rejected (now st + d) timeoutError"
    using timeout by blast
  have c11: "\<forall>evs s m evs'. length (collected (run st1 evs) m) = length (externalMspIds (run st1 evs)) \<longrightarrow>
            (\<forall>j < length (waiters (run st1 evs)).
               \<not> armed (waiters (run st1 (evs @ [Data s m])) ! j) \<and>
               returned (waiters (run st1 (evs @ [Data s m])) ! j) \<noteq> Pending) \<and>
            (returned (waiters (run st1 evs) ! k) = Pending \<longrightarrow>
               returned (waiters (run st1 (evs @ Data s m # evs')) ! k) =
                 Fulfilled (now (run st1 evs)) ())"
    using release by blast
  have c12: "\<forall>evs evs'. returned (waiters (run st1 evs) ! k) \<noteq> Pending \<longrightarrow>
            returned (waiters (run st1 (evs @ evs')) ! k) = returned (waiters (run st1 evs) ! k)"
    using stable by blast
  show ?thesis
    by (intro conjI) (fact k w1 f1 tt dd c9 c10 c11 c12 sizes)+
qed

theorem requestResponses_times_out_or_is_released_witness:
  "snd (requestResponses (Some 100) (run (initialServer [''A'', ''B''] None) [Connection])) = 0 \<and>
   timerDelay (requestedTimeout (Some 100)) = 100 \<and>
   returned (waiters (run (fst (requestResponses (Some 100)
       (run (initialServer [''A'', ''B''] None) [Connection]))) [Elapse 100]) ! 0) =
     Rejected 100 timeoutError \<and>
   returned (waiters (run (fst (requestResponses (Some 100)
       (run (initialServer [''A'', ''B''] None) [Connection])))
       [RequestResponses (Some 50), Data 0 ''A'']) ! 0) = Pending \<and>
   returned (waiters (run (fst (requestResponses (Some 100)
       (run (initialServer [''A'', ''B''] None) [Connection])))
       [RequestResponses (Some 50), Data 0 ''A'', Data 0 ''B'', Elapse 1000]) ! 0) = Fulfilled 0 () \<and>
   returned (waiters (run (fst (requestResponses (Some 100)
       (run (initialServer [''A'', ''B''] None) [Connection])))
       [RequestResponses (Some 50), Data 0 ''A'', Data 0 ''B'']) ! 1) \<noteq> Pending \<and>
   returned (waiters (run (fst (requestResponses (Some 100)
       (run (initialServer [''A'', ''B''] None) [Connection])))
       ([Elapse 100] @ [Data 0 ''A-B'', Elapse 5])) ! 0) = Rejected 100 timeoutError \<and>
   distinct [''A'', ''B''] \<and>
   card (set (collected (run (fst (requestResponses (Some 100)
       (run (initialServer [''A'', ''B''] None) [Connection])))
       [RequestResponses (Some 50), Data 0 ''A'']) ''B'')) = card (set [''A'', ''B'']) \<and>
   timerDelay (requestedTimeout (Some 2147483648)) = 1 \<and>
   returned (waiters (run (fst (requestResponses (Some 2147483648)
       (run (initialServer [''A'', ''B''] None) [Connection]))) [Elapse 1]) ! 0) =
     Rejected 1 timeoutError"
proof -
  let ?st = "run (initialServer [''A'', ''B''] None) [Connection]"
  let ?st1 = "fst (requestResponses (Some 100) ?st)"
  let ?st1' = "fst (requestResponses (Some 2147483648) ?st)"
  let ?evs = "[RequestResponses (Some 50), Data 0 ''A'']"
  note t = requestResponses_times_out_or_is_released [OF refl refl refl refl refl,
      where ids = "[''A'', ''B'']" and port = None and ?evs0.0 = "[Connection]" and timeout = "Some 100"]
  note t' = requestResponses_times_out_or_is_released [OF refl refl refl refl refl,
      where ids = "[''A'', ''B'']" and port = None and ?evs0.0 = "[Connection]"
      and timeout = "Some 2147483648"]
  have k: "snd (requestResponses (Some 100) ?st) = 0" and n: "now ?st = 0"
    and k': "snd (requestResponses (Some 2147483648) ?st) = 0"
    by (simp_all add: server_eval)
  have d: "timerDelay (requestedTimeout (Some 100)) = 100"
    and d': "timerDelay (requestedTimeout (Some 2147483648)) = 1"
    by (simp_all add: timerDelay_def requestedTimeout_def TIMEOUT_MAX_def)
  have dist: "distinct [''A'', ''B'']"
    by simp
  have h1: "invoked (run ?st1 []) = invoked ?st1 \<and> now ?st + 100 \<le> now (run ?st1 []) + 100"
    by (simp add: server_eval)
  have h1': "invoked (run ?st1' []) = invoked ?st1' \<and> now ?st + 1 \<le> now (run ?st1' []) + 1"
    by (simp add: server_eval)
  have h2: "length (collected (run ?st1 ?evs) ''B'') = length (externalMspIds (run ?st1 ?evs))"
    and p: "returned (waiters (run ?st1 ?evs) ! 0) = Pending"
    and n2: "now (run ?st1 ?evs) = 0" and l2: "length (waiters (run ?st1 ?evs)) = 2"
    by (simp_all add: server_eval)
  have "\<forall>evs e evs'. invoked (run ?st1 evs) = invoked ?st1 \<and> now ?st + 100 \<le> now (run ?st1 evs) + e \<longrightarrow>
        returned (waiters (run ?st1 (evs @ Elapse e # evs')) ! 0) = Rejected (now ?st + 100) timeoutError"
    using t [THEN conjunct2, THEN conjunct2, THEN conjunct2, THEN conjunct2, THEN conjunct2, THEN conjunct2, THEN conjunct2, THEN conjunct2, THEN conjunct2, THEN conjunct1] by (simp only: k d)
  with h1 have "returned (waiters (run ?st1 ([] @ Elapse 100 # [])) ! 0) = Rejected (now ?st + 100) timeoutError"
    by blast
  with n have a: "returned (waiters (run ?st1 [Elapse 100]) ! 0) = Rejected 100 timeoutError"
    by simp
  have "\<forall>evs e evs'. invoked (run ?st1' evs) = invoked ?st1' \<and> now ?st + 1 \<le> now (run ?st1' evs) + e \<longrightarrow>
        returned (waiters (run ?st1' (evs @ Elapse e # evs')) ! 0) = Rejected (now ?st + 1) timeoutError"
    using t' [THEN conjunct2, THEN conjunct2, THEN conjunct2, THEN conjunct2, THEN conjunct2, THEN conjunct2, THEN conjunct2, THEN conjunct2, THEN conjunct2, THEN conjunct1] by (simp only: k' d')
  with h1' have "returned (waiters (run ?st1' ([] @ Elapse 1 # [])) ! 0) = Rejected (now ?st + 1) timeoutError"
    by blast
  with n have a': "returned (waiters (run ?st1' [Elapse 1]) ! 0) = Rejected 1 timeoutError"
    by simp
  have r: "\<forall>evs s m evs'. length (collected (run ?st1 evs) m) = length (externalMspIds (run ?st1 evs)) \<longrightarrow>
            (\<forall>j < length (waiters (run ?st1 evs)).
               \<not> armed (waiters (run ?st1 (evs @ [Data s m])) ! j) \<and>
               returned (waiters (run ?st1 (evs @ [Data s m])) ! j) \<noteq> Pending) \<and>
            (returned (waiters (run ?st1 evs) ! 0) = Pending \<longrightarrow>
               returned (waiters (run ?st1 (evs @ Data s m # evs')) ! 0) =
                 Fulfilled (now (run ?st1 evs)) ())"
    using t [THEN conjunct2, THEN conjunct2, THEN conjunct2, THEN conjunct2, THEN conjunct2, THEN conjunct2, THEN conjunct2, THEN conjunct2, THEN conjunct2, THEN conjunct2, THEN conjunct1] by (simp only: k d)
  from r h2 p have "returned (waiters (run ?st1 (?evs @ Data 0 ''B'' # [Elapse 1000])) ! 0) =
                 Fulfilled (now (run ?st1 ?evs)) ()"
    by blast
  with n2 have b: "returned (waiters (run ?st1
      [RequestResponses (Some 50), Data 0 ''A'', Data 0 ''B'', Elapse 1000]) ! 0) = Fulfilled 0 ()"
    by simp
  from r h2 have "\<forall>j < length (waiters (run ?st1 ?evs)).
               returned (waiters (run ?st1 (?evs @ [Data 0 ''B''])) ! j) \<noteq> Pending"
    by blast
  then have "returned (waiters (run ?st1 (?evs @ [Data 0 ''B''])) ! 1) \<noteq> Pending"
    by (simp add: l2)
  then have c: "returned (waiters (run ?st1
      [RequestResponses (Some 50), Data 0 ''A'', Data 0 ''B'']) ! 1) \<noteq> Pending"
    by simp
  have s: "\<forall>evs evs'. returned (waiters (run ?st1 evs) ! 0) \<noteq> Pending \<longrightarrow>
            returned (waiters (run ?st1 (evs @ evs')) ! 0) = returned (waiters (run ?st1 evs) ! 0)"
    using t [THEN conjunct2, THEN conjunct2, THEN conjunct2, THEN conjunct2, THEN conjunct2, THEN conjunct2, THEN conjunct2, THEN conjunct2, THEN conjunct2, THEN conjunct2, THEN conjunct2, THEN conjunct1] by (simp only: k d)
  from a have "returned (waiters (run ?st1 [Elapse 100]) ! 0) \<noteq> Pending"
    by simp
  with s have "returned (waiters (run ?st1 ([Elapse 100] @ [Data 0 ''A-B'', Elapse 5])) ! 0) =
      returned (waiters (run ?st1 [Elapse 100]) ! 0)"
    by blast
  with a have e: "returned (waiters (run ?st1 ([Elapse 100] @ [Data 0 ''A-B'', Elapse 5])) ! 0) =
      Rejected 100 timeoutError"
    by simp
  have "distinct [''A'', ''B''] \<longrightarrow>
            (\<forall>evs m. (length (collected (run ?st1 evs) m) = length (externalMspIds (run ?st1 evs))) =
               (card (set (collected (run ?st1 evs) m)) = card (set [''A'', ''B''])))"
    using t [THEN conjunct2, THEN conjunct2, THEN conjunct2, THEN conjunct2, THEN conjunct2, THEN conjunct2, THEN conjunct2, THEN conjunct2, THEN conjunct2, THEN conjunct2, THEN conjunct2, THEN conjunct2] .
  with dist h2 have f: "card (set (collected (run ?st1 ?evs) ''B'')) = card (set [''A'', ''B''])"
    by blast
  show ?thesis
    by (intro conjI) (fact k d a p b c e dist f d' a')+
qed

section \<open>The partition of the targets\<close>

lemma ownedPeersCalls_Cons:
  "ownedPeersCalls (uc # ucs) peers =
     (if filter (owns uc) peers = [] then [] else [(uc, filter (owns uc) peers)])
       @ ownedPeersCalls ucs (filter (\<lambda>p. \<not> owns uc p) peers)"
  by (simp add: Let_def)

declare ownedPeersCalls.simps(2) [simp del]

lemma ownedPeersCalls_entry:
  "(uc, ps) \<in> set (ownedPeersCalls ucs peers) \<Longrightarrow>
   ps \<noteq> [] \<and> set ps \<subseteq> set peers \<and> uc \<in> set ucs \<and> (\<forall>p \<in> set ps. owns uc p)"
proof (induction ucs arbitrary: peers)
  case Nil
  then show ?case by simp
next
  case (Cons u ucs)
  from Cons.prems consider
    (head) "filter (owns u) peers \<noteq> []" "uc = u" "ps = filter (owns u) peers"
    | (rest) "(uc, ps) \<in> set (ownedPeersCalls ucs (filter (\<lambda>p. \<not> owns u p) peers))"
    by (auto simp: ownedPeersCalls_Cons split: if_splits)
  then show ?case
  proof cases
    case head
    then show ?thesis by auto
  next
    case rest
    from Cons.IH [OF rest] show ?thesis by auto
  qed
qed

lemma ownedPeersCalls_first:
  "(uc, ps) \<in> set (ownedPeersCalls ucs peers) \<Longrightarrow> p \<in> set ps \<Longrightarrow>
   find (\<lambda>u. owns u p) ucs = Some uc"
proof (induction ucs arbitrary: peers)
  case Nil
  then show ?case by simp
next
  case (Cons u ucs)
  from Cons.prems(1) consider
    (head) "uc = u" "ps = filter (owns u) peers"
    | (rest) "(uc, ps) \<in> set (ownedPeersCalls ucs (filter (\<lambda>p. \<not> owns u p) peers))"
    by (auto simp: ownedPeersCalls_Cons split: if_splits)
  then show ?case
  proof cases
    case head
    with Cons.prems(2) show ?thesis by simp
  next
    case rest
    from ownedPeersCalls_entry [OF rest] Cons.prems(2) have "\<not> owns u p"
      by auto
    with Cons.IH [OF rest Cons.prems(2)] show ?thesis by simp
  qed
qed

lemma ownedPeersCalls_covers:
  "p \<in> set peers \<Longrightarrow> find (\<lambda>u. owns u p) ucs = Some uc \<Longrightarrow>
   \<exists>ps. (uc, ps) \<in> set (ownedPeersCalls ucs peers) \<and> p \<in> set ps"
proof (induction ucs arbitrary: peers)
  case Nil
  then show ?case by simp
next
  case (Cons u ucs)
  show ?case
  proof (cases "owns u p")
    case True
    with Cons.prems have "uc = u" "p \<in> set (filter (owns u) peers)"
      by simp_all
    then have "filter (owns u) peers \<noteq> []"
      by (auto simp: filter_empty_conv)
    with \<open>uc = u\<close> have "(uc, filter (owns u) peers) \<in> set (ownedPeersCalls (u # ucs) peers)"
      by (simp add: ownedPeersCalls_Cons)
    with \<open>p \<in> set (filter (owns u) peers)\<close> show ?thesis by blast
  next
    case False
    with Cons.prems have "p \<in> set (filter (\<lambda>p. \<not> owns u p) peers)" "find (\<lambda>u. owns u p) ucs = Some uc"
      by simp_all
    from Cons.IH [OF this] show ?thesis
      by (auto simp: ownedPeersCalls_Cons)
  qed
qed

lemma ownedPeersCalls_disjoint:
  "i < j \<Longrightarrow> j < length (ownedPeersCalls ucs peers) \<Longrightarrow>
   set (snd (ownedPeersCalls ucs peers ! i)) \<inter> set (snd (ownedPeersCalls ucs peers ! j)) = {}"
proof (induction ucs arbitrary: peers i j)
  case Nil
  then show ?case by simp
next
  case (Cons u ucs)
  let ?rest = "ownedPeersCalls ucs (filter (\<lambda>p. \<not> owns u p) peers)"
  show ?case
  proof (cases "filter (owns u) peers = []")
    case True
    then have "ownedPeersCalls (u # ucs) peers = ?rest"
      by (simp add: ownedPeersCalls_Cons)
    with Cons show ?thesis by simp
  next
    case False
    then have eq: "ownedPeersCalls (u # ucs) peers = (u, filter (owns u) peers) # ?rest"
      by (simp add: ownedPeersCalls_Cons)
    from Cons.prems obtain j' where j': "j = Suc j'" "j' < length ?rest"
      by (cases j) (auto simp: eq)
    show ?thesis
    proof (cases i)
      case 0
      have "?rest ! j' \<in> set ?rest"
        using j' by simp
      then have "(fst (?rest ! j'), snd (?rest ! j')) \<in> set ?rest"
        by simp
      from ownedPeersCalls_entry [OF this]
      have "set (snd (?rest ! j')) \<subseteq> set (filter (\<lambda>p. \<not> owns u p) peers)"
        by simp
      then show ?thesis
        using 0 j' by (auto simp: eq)
    next
      case (Suc i')
      with Cons.prems j' have "i' < j'" by simp
      from Cons.IH [OF this j'(2)] show ?thesis
        using Suc j' by (simp add: eq)
    qed
  qed
qed

subsection \<open>The partition is disjoint and complete\<close>

text \<open>
  C3. The target nodes of a fan-out operation are \<^verbatim>\<open>peers\<close> of lines 147 and 187: the
  peers of the channel (\<^verbatim>\<open>joinChannel\<close>) or the targets of the request
  (\<^verbatim>\<open>installChaincode\<close>) that pass \<^verbatim>\<open>isFcwPeer\<close>. Each client called is given a
  non-empty list of target nodes, and the lists of different calls are disjoint. A target
  node whose admin MSP identifiers include the organization identifier of some client
  present is in the list of exactly one call, that of the first such client in the order
  of \<^verbatim>\<open>userClients\<close>; a node that no client present administers is in no list, and
  neither is a peer that does not pass \<^verbatim>\<open>isFcwPeer\<close>.
\<close>

theorem partitions_disjoint_and_complete:
  assumes "peers = filter isFcwPeer nodes"
    and "parts = ownedPeersCalls userClients peers"
  shows "joinChannelOwnedPeers isFcwPeer userClients channel =
           ownedPeersCalls userClients (filter isFcwPeer (getPeers channel)) \<and>
         installChaincodeOwnedPeers isFcwPeer userClients request =
           ownedPeersCalls userClients (filter isFcwPeer (targets request)) \<and>
         (\<forall>i < length parts. snd (parts ! i) \<noteq> [] \<and> set (snd (parts ! i)) \<subseteq> set peers \<and>
            fst (parts ! i) \<in> set userClients) \<and>
         (\<forall>i j. i < j \<and> j < length parts \<longrightarrow>
            set (snd (parts ! i)) \<inter> set (snd (parts ! j)) = {}) \<and>
         (\<forall>p \<in> set peers. (\<exists>uc \<in> set userClients. owns uc p) \<longrightarrow>
            (\<exists>!i. i < length parts \<and> p \<in> set (snd (parts ! i)))) \<and>
         (\<forall>i < length parts. \<forall>p \<in> set (snd (parts ! i)).
            find (\<lambda>uc. owns uc p) userClients = Some (fst (parts ! i))) \<and>
         (\<forall>p. \<not> (\<exists>uc \<in> set userClients. owns uc p) \<longrightarrow>
            (\<forall>i < length parts. p \<notin> set (snd (parts ! i)))) \<and>
         set peers \<subseteq> set nodes \<and>
         (\<forall>p. \<not> isFcwPeer p \<longrightarrow> (\<forall>i < length parts. p \<notin> set (snd (parts ! i))))"
proof -
  have entry: "snd (parts ! i) \<noteq> [] \<and> set (snd (parts ! i)) \<subseteq> set peers \<and>
      fst (parts ! i) \<in> set userClients \<and> (\<forall>p \<in> set (snd (parts ! i)). owns (fst (parts ! i)) p)"
    if "i < length parts" for i
  proof -
    have "(fst (parts ! i), snd (parts ! i)) \<in> set (ownedPeersCalls userClients peers)"
      using that unfolding assms(2) by simp
    then show ?thesis by (rule ownedPeersCalls_entry)
  qed
  have first: "find (\<lambda>uc. owns uc p) userClients = Some (fst (parts ! i))"
    if "i < length parts" "p \<in> set (snd (parts ! i))" for i p
  proof -
    have "(fst (parts ! i), snd (parts ! i)) \<in> set (ownedPeersCalls userClients peers)"
      using that(1) unfolding assms(2) by simp
    then show ?thesis using that(2) by (rule ownedPeersCalls_first)
  qed
  have disj: "set (snd (parts ! i)) \<inter> set (snd (parts ! j)) = {}" if "i < j" "j < length parts" for i j
    using that unfolding assms(2) by (rule ownedPeersCalls_disjoint)
  have one: "\<exists>!i. i < length parts \<and> p \<in> set (snd (parts ! i))"
    if p: "p \<in> set peers" and o: "\<exists>uc \<in> set userClients. owns uc p" for p
  proof -
    from o obtain uc where "find (\<lambda>u. owns u p) userClients = Some uc"
      by (cases "find (\<lambda>u. owns u p) userClients") (auto simp: find_None_iff)
    with p obtain ps where "(uc, ps) \<in> set parts" "p \<in> set ps"
      unfolding assms(2) using ownedPeersCalls_covers by blast
    then obtain i where i: "i < length parts" "parts ! i = (uc, ps)"
      by (auto simp: in_set_conv_nth)
    with \<open>p \<in> set ps\<close> have i: "i < length parts" "p \<in> set (snd (parts ! i))"
      by simp_all
    show ?thesis
    proof (rule ex1I [of _ i])
      show "i < length parts \<and> p \<in> set (snd (parts ! i))"
        using i by simp
    next
      fix j assume j: "j < length parts \<and> p \<in> set (snd (parts ! j))"
      show "j = i"
      proof (rule ccontr)
        assume "j \<noteq> i"
        then consider "i < j" | "j < i" by linarith
        then show False
          using disj [of i j] disj [of j i] i j by cases auto
      qed
    qed
  qed
  have none: "p \<notin> set (snd (parts ! i))"
    if "\<not> (\<exists>uc \<in> set userClients. owns uc p)" "i < length parts" for p i
    using entry [OF that(2)] that(1) by blast
  have nofcw: "p \<notin> set (snd (parts ! i))" if "\<not> isFcwPeer p" "i < length parts" for p i
    using entry [OF that(2)] that(1) unfolding assms(1) by auto
  have sub: "snd (parts ! i) \<noteq> [] \<and> set (snd (parts ! i)) \<subseteq> set peers \<and> fst (parts ! i) \<in> set userClients"
    if "i < length parts" for i
    using entry [OF that] by auto
  have defs: "joinChannelOwnedPeers isFcwPeer userClients channel =
           ownedPeersCalls userClients (filter isFcwPeer (getPeers channel))"
    "installChaincodeOwnedPeers isFcwPeer userClients request =
           ownedPeersCalls userClients (filter isFcwPeer (targets request))"
    by (simp_all add: joinChannelOwnedPeers_def installChaincodeOwnedPeers_def)
  have c3: "\<forall>i < length parts. snd (parts ! i) \<noteq> [] \<and> set (snd (parts ! i)) \<subseteq> set peers \<and>
            fst (parts ! i) \<in> set userClients"
    using sub by blast
  have c4: "\<forall>i j. i < j \<and> j < length parts \<longrightarrow>
            set (snd (parts ! i)) \<inter> set (snd (parts ! j)) = {}"
    using disj by blast
  have c5: "\<forall>p \<in> set peers. (\<exists>uc \<in> set userClients. owns uc p) \<longrightarrow>
            (\<exists>!i. i < length parts \<and> p \<in> set (snd (parts ! i)))"
    using one by blast
  have c6: "\<forall>i < length parts. \<forall>p \<in> set (snd (parts ! i)).
            find (\<lambda>uc. owns uc p) userClients = Some (fst (parts ! i))"
    using first by blast
  have c7: "\<forall>p. \<not> (\<exists>uc \<in> set userClients. owns uc p) \<longrightarrow>
            (\<forall>i < length parts. p \<notin> set (snd (parts ! i)))"
    using none by blast
  have c8: "set peers \<subseteq> set nodes"
    unfolding assms(1) by auto
  have c9: "\<forall>p. \<not> isFcwPeer p \<longrightarrow> (\<forall>i < length parts. p \<notin> set (snd (parts ! i)))"
    using nofcw by blast
  show ?thesis
    by (intro conjI) (fact defs c3 c4 c5 c6 c7 c8 c9)+
qed

lemmas example_eval = client1_def client2_def client3_def peer1_def peer2_def peer3_def peer4_def
  peer5_def exampleIsFcwPeer_def exampleChannel_def owns_def ownedPeersCalls_Cons

lemma example_parts:
  "ownedPeersCalls [client1, client2, client3]
     (filter exampleIsFcwPeer [peer1, peer2, peer3, peer4, peer5]) =
   [(client1, [peer1, peer2]), (client2, [peer4])]"
  by (simp add: example_eval)

theorem partitions_disjoint_and_complete_witness:
  "filter exampleIsFcwPeer [peer1, peer2, peer3, peer4, peer5] = [peer1, peer2, peer3, peer4] \<and>
   ownedPeersCalls [client1, client2, client3] [peer1, peer2, peer3, peer4] =
     [(client1, [peer1, peer2]), (client2, [peer4])] \<and>
   peer2 \<in> set [peer1, peer2, peer3, peer4] \<and> owns client1 peer2 \<and> owns client2 peer2 \<and>
   (\<exists>!i. i < length [(client1, [peer1, peer2]), (client2, [peer4])] \<and>
      peer2 \<in> set (snd ([(client1, [peer1, peer2]), (client2, [peer4])] ! i))) \<and>
   find (\<lambda>uc. owns uc peer2) [client1, client2, client3] = Some client1 \<and>
   set [peer1, peer2] \<inter> set [peer4] = {} \<and>
   \<not> (\<exists>uc \<in> set [client1, client2, client3]. owns uc peer3) \<and>
   peer3 \<notin> set [peer1, peer2] \<and> peer3 \<notin> set [peer4] \<and>
   \<not> exampleIsFcwPeer peer5 \<and> peer5 \<notin> set [peer1, peer2] \<and> peer5 \<notin> set [peer4] \<and>
   set [peer4] \<subseteq> set [peer1, peer2, peer3, peer4] \<and> client2 \<in> set [client1, client2, client3]"
proof -
  let ?ucs = "[client1, client2, client3]"
  let ?nodes = "[peer1, peer2, peer3, peer4, peer5]"
  let ?peers = "[peer1, peer2, peer3, peer4]"
  let ?parts = "[(client1, [peer1, peer2]), (client2, [peer4])]"
  have f: "filter exampleIsFcwPeer ?nodes = ?peers"
    by (simp add: example_eval)
  have p: "ownedPeersCalls ?ucs ?peers = ?parts"
    using example_parts by (simp only: f)
  note t = partitions_disjoint_and_complete [OF f [symmetric] p [symmetric]]
  note t3 = t [THEN conjunct2, THEN conjunct2, THEN conjunct1]
  note t4 = t [THEN conjunct2, THEN conjunct2, THEN conjunct2, THEN conjunct1]
  note t5 = t [THEN conjunct2, THEN conjunct2, THEN conjunct2, THEN conjunct2, THEN conjunct1]
  note t6 = t [THEN conjunct2, THEN conjunct2, THEN conjunct2, THEN conjunct2, THEN conjunct2,
      THEN conjunct1]
  note t7 = t [THEN conjunct2, THEN conjunct2, THEN conjunct2, THEN conjunct2, THEN conjunct2,
      THEN conjunct2, THEN conjunct1]
  note t9 = t [THEN conjunct2, THEN conjunct2, THEN conjunct2, THEN conjunct2, THEN conjunct2,
      THEN conjunct2, THEN conjunct2, THEN conjunct2]
  have h: "peer2 \<in> set ?peers" "owns client1 peer2" "owns client2 peer2"
    "\<not> (\<exists>uc \<in> set ?ucs. owns uc peer3)" "\<not> exampleIsFcwPeer peer5"
    by (simp_all add: example_eval)
  from h(2) have o: "\<exists>uc \<in> set ?ucs. owns uc peer2"
    by simp
  have a: "\<exists>!i. i < length ?parts \<and> peer2 \<in> set (snd (?parts ! i))"
    using t5 [THEN bspec, OF h(1), THEN mp, OF o] .
  have "\<forall>p \<in> set (snd (?parts ! 0)). find (\<lambda>uc. owns uc p) ?ucs = Some (fst (?parts ! 0))"
    using t6 [THEN spec, of 0] by simp
  then have b: "find (\<lambda>uc. owns uc peer2) ?ucs = Some client1"
    by simp
  have "set (snd (?parts ! 0)) \<inter> set (snd (?parts ! 1)) = {}"
    using t4 [THEN spec, of 0, THEN spec, of 1] by simp
  then have c: "set [peer1, peer2] \<inter> set [peer4] = {}"
    by simp
  note n3 = t7 [THEN spec, of peer3, THEN mp, OF h(4)]
  have "peer3 \<notin> set (snd (?parts ! 0))" "peer3 \<notin> set (snd (?parts ! 1))"
    using n3 [THEN spec, of 0] n3 [THEN spec, of 1] by simp_all
  then have d: "peer3 \<notin> set [peer1, peer2]" "peer3 \<notin> set [peer4]"
    by simp_all
  note n5 = t9 [THEN spec, of peer5, THEN mp, OF h(5)]
  have "peer5 \<notin> set (snd (?parts ! 0))" "peer5 \<notin> set (snd (?parts ! 1))"
    using n5 [THEN spec, of 0] n5 [THEN spec, of 1] by simp_all
  then have e: "peer5 \<notin> set [peer1, peer2]" "peer5 \<notin> set [peer4]"
    by simp_all
  have "set (snd (?parts ! 1)) \<subseteq> set ?peers \<and> fst (?parts ! 1) \<in> set ?ucs"
    using t3 [THEN spec, of 1] by simp
  then have g: "set [peer4] \<subseteq> set ?peers" "client2 \<in> set ?ucs"
    by simp_all
  show ?thesis
    by (intro conjI) (fact f p h a b c d e g)+
qed

section \<open>Facts about Promise.all\<close>

lemma firstRejection_None:
  "firstRejection happenedFirst start ps = None \<longleftrightarrow> (\<forall>t e. Rejected t e \<notin> set ps)"
proof (induction ps)
  case Nil
  then show ?case by simp
next
  case (Cons p ps)
  then show ?case
    by (cases p) (auto split: option.splits)
qed

lemma firstRejected_skip:
  assumes "firstRejected start ps t e" and "\<forall>t' e'. p \<noteq> Rejected t' e'"
  shows "firstRejected start (p # ps) t e"
proof -
  from assms(1) obtain i t0 where i: "i < length ps" "ps ! i = Rejected t0 e" "t = max start t0"
    "\<forall>j < length ps. \<forall>t' e'. ps ! j = Rejected t' e' \<longrightarrow>
       t \<le> max start t' \<and> (j < i \<and> t = start \<longrightarrow> start < t')"
    unfolding firstRejected_def by blast
  have "\<forall>j < length (p # ps). \<forall>t' e'. (p # ps) ! j = Rejected t' e' \<longrightarrow>
        t \<le> max start t' \<and> (j < Suc i \<and> t = start \<longrightarrow> start < t')"
  proof (intro allI impI)
    fix j t' e' assume j: "j < length (p # ps)" "(p # ps) ! j = Rejected t' e'"
    show "t \<le> max start t' \<and> (j < Suc i \<and> t = start \<longrightarrow> start < t')"
      using j i(4) assms(2) by (cases j) simp_all
  qed
  with i show ?thesis
    unfolding firstRejected_def by (intro exI [of _ "Suc i"]) simp
qed

lemma firstRejected_before:
  assumes "firstRejected start ps t e" and "t \<le> max start t1" and "t = start \<longrightarrow> start < t1"
  shows "firstRejected start (Rejected t1 e1 # ps) t e"
proof -
  from assms(1) obtain i t0 where i: "i < length ps" "ps ! i = Rejected t0 e" "t = max start t0"
    "\<forall>j < length ps. \<forall>t' e'. ps ! j = Rejected t' e' \<longrightarrow>
       t \<le> max start t' \<and> (j < i \<and> t = start \<longrightarrow> start < t')"
    unfolding firstRejected_def by blast
  have "\<forall>j < length (Rejected t1 e1 # ps). \<forall>t' e'. (Rejected t1 e1 # ps) ! j = Rejected t' e' \<longrightarrow>
        t \<le> max start t' \<and> (j < Suc i \<and> t = start \<longrightarrow> start < t')"
  proof (intro allI impI)
    fix j t' e' assume j: "j < length (Rejected t1 e1 # ps)" "(Rejected t1 e1 # ps) ! j = Rejected t' e'"
    show "t \<le> max start t' \<and> (j < Suc i \<and> t = start \<longrightarrow> start < t')"
    proof (cases j)
      case 0
      with j assms(2,3) show ?thesis by simp
    next
      case (Suc j')
      with j i(4) show ?thesis by simp
    qed
  qed
  with i show ?thesis
    unfolding firstRejected_def by (intro exI [of _ "Suc i"]) simp
qed

lemma firstRejected_here:
  assumes "\<forall>j < length ps. \<forall>t' e'. ps ! j = Rejected t' e' \<longrightarrow> max start t1 \<le> max start t'"
  shows "firstRejected start (Rejected t1 e1 # ps) (max start t1) e1"
proof -
  have "\<forall>j < length (Rejected t1 e1 # ps). \<forall>t' e'. (Rejected t1 e1 # ps) ! j = Rejected t' e' \<longrightarrow>
        max start t1 \<le> max start t' \<and> (j < 0 \<and> max start t1 = start \<longrightarrow> start < t')"
  proof (intro allI impI)
    fix j t' e' assume j: "j < length (Rejected t1 e1 # ps)" "(Rejected t1 e1 # ps) ! j = Rejected t' e'"
    show "max start t1 \<le> max start t' \<and> (j < 0 \<and> max start t1 = start \<longrightarrow> start < t')"
    proof (cases j)
      case 0
      with j show ?thesis by simp
    next
      case (Suc j')
      with j assms show ?thesis by simp
    qed
  qed
  then show ?thesis
    unfolding firstRejected_def by (intro exI [of _ 0]) simp
qed

lemma firstRejection_firstRejected:
  "firstRejection happenedFirst start ps = Some (t, e) \<Longrightarrow> firstRejected start ps t e"
proof (induction ps arbitrary: t e)
  case Nil
  then show ?case by simp
next
  case (Cons p ps)
  show ?case
  proof (cases p)
    case Pending
    with Cons show ?thesis by (simp add: firstRejected_skip)
  next
    case (Fulfilled t1 v)
    with Cons show ?thesis by (simp add: firstRejected_skip)
  next
    case (Rejected t1 e1)
    show ?thesis
    proof (cases "firstRejection happenedFirst start ps")
      case None
      then have "\<forall>t e. Rejected t e \<notin> set ps"
        by (simp add: firstRejection_None)
      then have "\<forall>j < length ps. \<forall>t' e'. ps ! j = Rejected t' e' \<longrightarrow> max start t1 \<le> max start t'"
        by (metis nth_mem)
      then have "firstRejected start (Rejected t1 e1 # ps) (max start t1) e1"
        by (rule firstRejected_here)
      with Cons.prems Rejected None show ?thesis by simp
    next
      case (Some a)
      obtain t2 e2 where a: "a = (t2, e2)" by (cases a)
      with Some Cons.IH have ih: "firstRejected start ps t2 e2" by simp
      from ih have low: "\<forall>j < length ps. \<forall>t' e'. ps ! j = Rejected t' e' \<longrightarrow> t2 \<le> max start t'"
        unfolding firstRejected_def by blast
      define m where "m = max start t1"
      have eq: "(if m < t2 then Some (m, e1)
                 else if t2 < m then Some (t2, e2)
                 else if t2 = start then Some (start, e1)
                 else if happenedFirst t2 e1 e2 then Some (t2, e1)
                 else Some (t2, e2)) = Some (t, e)"
        using Cons.prems Rejected Some a unfolding m_def by simp
      have here: "firstRejected start (p # ps) m e1" if "m \<le> t2"
      proof -
        from low that
        have "\<forall>j < length ps. \<forall>t' e'. ps ! j = Rejected t' e' \<longrightarrow> max start t1 \<le> max start t'"
          unfolding m_def by (meson le_trans)
        then show ?thesis unfolding m_def Rejected by (rule firstRejected_here)
      qed
      have other: "firstRejected start (p # ps) t2 e2"
        if "t2 \<le> m" and "t2 = start \<longrightarrow> start < t1"
        using ih that unfolding m_def Rejected by (rule firstRejected_before)
      consider (first) "m < t2" | (later) "t2 < m"
        | (both) "t2 = m" "t2 = start"
        | (tie) "t2 = m" "t2 \<noteq> start"
        by linarith
      then show ?thesis
      proof cases
        case first
        with eq have "t = m" "e = e1" by simp_all
        with here first show ?thesis by simp
      next
        case later
        then have "\<not> m < t2" by simp
        with eq later have "t = t2" "e = e2" by simp_all
        moreover from later have "t2 \<le> m" "t2 = start \<longrightarrow> start < t1"
          unfolding m_def by auto
        ultimately show ?thesis using other by simp
      next
        case both
        with eq have "t = m" "e = e1" by simp_all
        with here both show ?thesis by simp
      next
        case tie
        show ?thesis
        proof (cases "happenedFirst t2 e1 e2")
          case True
          with eq tie have "t = m" "e = e1" by simp_all
          with here tie show ?thesis by simp
        next
          case False
          with eq tie have "t = t2" "e = e2" by simp_all
          with other tie show ?thesis by simp
        qed
      qed
    qed
  qed
qed

lemma allFulfilled_Some:
  "allFulfilled start ps = Some (t, vs) \<Longrightarrow>
   length vs = length ps \<and> start \<le> t \<and>
   (\<forall>i < length ps. \<exists>ti \<le> t. ps ! i = Fulfilled ti (vs ! i)) \<and>
   (t = start \<or> (\<exists>i < length ps. ps ! i = Fulfilled t (vs ! i)))"
proof (induction start ps arbitrary: t vs rule: allFulfilled.induct)
  case (1 start)
  then show ?case by simp
next
  case (2 start t1 v ps)
  from "2.prems" obtain t2 vs2 where r: "allFulfilled start ps = Some (t2, vs2)"
    "t = max t1 t2" "vs = v # vs2"
    by (auto split: option.splits)
  from "2.IH" [OF r(1)] have ih: "length vs2 = length ps" "start \<le> t2"
    "\<forall>i < length ps. \<exists>ti \<le> t2. ps ! i = Fulfilled ti (vs2 ! i)"
    "t2 = start \<or> (\<exists>i < length ps. ps ! i = Fulfilled t2 (vs2 ! i))"
    by simp_all
  have a: "\<forall>i < length (Fulfilled t1 v # ps). \<exists>ti \<le> t. (Fulfilled t1 v # ps) ! i = Fulfilled ti (vs ! i)"
  proof (intro allI impI)
    fix i assume i: "i < length (Fulfilled t1 v # ps)"
    show "\<exists>ti \<le> t. (Fulfilled t1 v # ps) ! i = Fulfilled ti (vs ! i)"
    proof (cases i)
      case 0
      with r show ?thesis by simp
    next
      case (Suc i')
      with i ih(3) obtain ti where "ti \<le> t2" "ps ! i' = Fulfilled ti (vs2 ! i')"
        by auto
      with Suc r show ?thesis
        by (intro exI [of _ ti]) simp
    qed
  qed
  have b: "t = start \<or> (\<exists>i < length (Fulfilled t1 v # ps). (Fulfilled t1 v # ps) ! i = Fulfilled t (vs ! i))"
  proof (cases "t2 \<le> t1")
    case True
    with r have "t = t1" by simp
    then have "(Fulfilled t1 v # ps) ! 0 = Fulfilled t (vs ! 0)"
      using r by simp
    then show ?thesis by blast
  next
    case False
    with r have t: "t = t2" by simp
    from ih(4) show ?thesis
    proof
      assume "t2 = start"
      with t show ?thesis by simp
    next
      assume "\<exists>i < length ps. ps ! i = Fulfilled t2 (vs2 ! i)"
      then obtain i where "i < length ps" "ps ! i = Fulfilled t2 (vs2 ! i)" by blast
      then have "Suc i < length (Fulfilled t1 v # ps) \<and>
          (Fulfilled t1 v # ps) ! Suc i = Fulfilled t (vs ! Suc i)"
        using t r by simp
      then show ?thesis by blast
    qed
  qed
  from r ih a b show ?case by simp
qed simp_all

lemma allFulfilled_no_rejection:
  "allFulfilled start ps = Some r \<Longrightarrow> firstRejection happenedFirst start ps = None"
  by (induction start ps arbitrary: r rule: allFulfilled.induct) (auto split: option.splits)

lemma allFulfilled_exists:
  "(\<forall>p \<in> set ps. \<exists>t v. p = Fulfilled t v) \<Longrightarrow> \<exists>r. allFulfilled start ps = Some r"
proof (induction ps)
  case Nil
  then show ?case by simp
next
  case (Cons p ps)
  then obtain t v where "p = Fulfilled t v" by auto
  moreover from Cons obtain r where "allFulfilled start ps = Some r" by auto
  ultimately show ?case by (cases r) simp
qed

lemma promiseAll_Rejected:
  "promiseAll happenedFirst start ps = Rejected t e \<longleftrightarrow> firstRejection happenedFirst start ps = Some (t, e)"
  by (auto simp: promiseAll_def split: option.splits)

lemma promiseAll_Fulfilled:
  "promiseAll happenedFirst start ps = Fulfilled t vs \<longleftrightarrow> allFulfilled start ps = Some (t, vs)"
  by (auto simp: promiseAll_def allFulfilled_no_rejection split: option.splits)

lemma promiseAll_fails:
  assumes "i < length ps" and "ps ! i = Rejected t0 e0"
  shows "\<exists>t e. promiseAll happenedFirst start ps = Rejected t e"
proof -
  have "Rejected t0 e0 \<in> set ps"
    using assms by (metis nth_mem)
  then have "firstRejection happenedFirst start ps \<noteq> None"
    by (auto simp: firstRejection_None)
  then show ?thesis
    by (auto simp: promiseAll_def)
qed

lemma promiseAll_all_fulfilled:
  "(\<forall>p \<in> set ps. \<exists>t v. p = Fulfilled t v) \<Longrightarrow> \<exists>t vs. promiseAll happenedFirst start ps = Fulfilled t vs"
  using allFulfilled_exists [of ps start] by (auto simp: promiseAll_Fulfilled)

section \<open>What the fan-out operations do\<close>

subsection \<open>Failure of a sub-operation\<close>

lemma promiseAll_fails_first:
  assumes "\<exists>i < length ps. \<exists>t0 e0. ps ! i = Rejected t0 e0"
  shows "\<exists>t e. promiseAll happenedFirst start ps = Rejected t e \<and> firstRejected start ps t e"
proof -
  from assms obtain t e where r: "promiseAll happenedFirst start ps = Rejected t e"
    using promiseAll_fails by blast
  then have "firstRejected start ps t e"
    by (simp add: promiseAll_Rejected firstRejection_firstRejected)
  with r show ?thesis by blast
qed

lemma joinChannel_Rejected:
  "fst (joinChannel happenedFirst isFcwPeer ucJoin ucs channel opts start calls) = Rejected t e \<longleftrightarrow>
   promiseAll happenedFirst start (joinChannelCalls isFcwPeer ucJoin ucs channel opts) = Rejected t e"
  by (simp add: joinChannel_def Let_def split: promise.splits)

lemma installChaincode_Rejected:
  "fst (installChaincode happenedFirst isFcwPeer ucInstall ucs request timeout start calls) = Rejected t e \<longleftrightarrow>
   promiseAll happenedFirst start (installChaincodeCalls isFcwPeer ucInstall ucs request timeout) = Rejected t e"
  by (simp add: installChaincode_def Let_def split: promise.splits)

lemma joinChannel_Fulfilled:
  "fst (joinChannel happenedFirst isFcwPeer ucJoin ucs channel opts start calls) = Fulfilled t agg \<longleftrightarrow>
   (\<exists>rs. promiseAll happenedFirst start (joinChannelCalls isFcwPeer ucJoin ucs channel opts) = Fulfilled t rs \<and>
      agg = \<lparr>data = map responseData rs,
             wait = Some (\<lambda>invokedAt calls2.
               (promiseAll happenedFirst invokedAt (map (\<lambda>r. responseWait r invokedAt) rs),
                calls2 @ map Wait [0..<length rs]))\<rparr>)"
  by (auto simp: joinChannel_def Let_def split: promise.splits)

lemma installChaincode_Fulfilled:
  "fst (installChaincode happenedFirst isFcwPeer ucInstall ucs request timeout start calls) = Fulfilled t agg \<longleftrightarrow>
   (\<exists>rs. promiseAll happenedFirst start (installChaincodeCalls isFcwPeer ucInstall ucs request timeout) = Fulfilled t rs \<and>
      agg = \<lparr>data = map responseData rs, wait = None\<rparr>)"
  by (auto simp: installChaincode_def Let_def split: promise.splits)

lemma example_join_parts:
  "joinChannelOwnedPeers exampleIsFcwPeer [client1, client2, client3] exampleChannel =
     [(client1, [peer1, peer2]), (client2, [peer4])]"
  using example_parts by (simp add: joinChannelOwnedPeers_def exampleChannel_def)

lemma example_install_parts:
  "installChaincodeOwnedPeers exampleIsFcwPeer [client1, client2, client3] exampleRequest =
     [(client1, [peer1, peer2]), (client2, [peer4])]"
  using example_parts by (simp add: installChaincodeOwnedPeers_def exampleRequest_def)

lemma example_names: "userName client1 = ''admin1''" "userName client2 = ''admin2''"
  by (simp_all add: client1_def client2_def)

text \<open>
  C6. If the call of any one client fails, \<^verbatim>\<open>joinChannel\<close> and
  \<^verbatim>\<open>installChaincode\<close> fail, whatever the other calls do and in whatever order
  rejections of the same instant come, and so return no data at all. They fail with a
  rejection that comes first: the rejection of one of the calls, none being earlier, and
  when it was there at the start, the first of those in the order of the calls. The
  \<^verbatim>\<open>wait()\<close> of the object \<^verbatim>\<open>joinChannel\<close> returns does the same with the
  \<^verbatim>\<open>wait()\<close> of the responses: if one of them fails it fails, with a rejection that
  comes first.
\<close>

theorem fan_out_fails_fast:
  "((\<exists>i < length (joinChannelCalls isFcwPeer ucJoin ucs channel opts). \<exists>t0 e0.
       joinChannelCalls isFcwPeer ucJoin ucs channel opts ! i = Rejected t0 e0) \<longrightarrow>
    (\<exists>t e. fst (joinChannel happenedFirst isFcwPeer ucJoin ucs channel opts start calls) = Rejected t e \<and>
       firstRejected start (joinChannelCalls isFcwPeer ucJoin ucs channel opts) t e)) \<and>
   ((\<exists>i < length (installChaincodeCalls isFcwPeer ucInstall ucs request timeout). \<exists>t0 e0.
       installChaincodeCalls isFcwPeer ucInstall ucs request timeout ! i = Rejected t0 e0) \<longrightarrow>
    (\<exists>t e. fst (installChaincode happenedFirst isFcwPeer ucInstall ucs request timeout start calls) = Rejected t e \<and>
       firstRejected start (installChaincodeCalls isFcwPeer ucInstall ucs request timeout) t e)) \<and>
   (\<forall>t agg. fst (joinChannel happenedFirst isFcwPeer ucJoin ucs channel opts start calls) = Fulfilled t agg \<longrightarrow>
      (\<exists>w rs. wait agg = Some w \<and>
         promiseAll happenedFirst start (joinChannelCalls isFcwPeer ucJoin ucs channel opts) = Fulfilled t rs \<and>
         (\<forall>invokedAt calls2.
            (\<exists>i < length rs. \<exists>t0 e0. responseWait (rs ! i) invokedAt = Rejected t0 e0) \<longrightarrow>
            (\<exists>t' e'. fst (w invokedAt calls2) = Rejected t' e' \<and>
               firstRejected invokedAt (map (\<lambda>r. responseWait r invokedAt) rs) t' e'))))"
proof -
  have j: "\<exists>t e. fst (joinChannel happenedFirst isFcwPeer ucJoin ucs channel opts start calls) = Rejected t e \<and>
       firstRejected start (joinChannelCalls isFcwPeer ucJoin ucs channel opts) t e"
    if "\<exists>i < length (joinChannelCalls isFcwPeer ucJoin ucs channel opts). \<exists>t0 e0.
       joinChannelCalls isFcwPeer ucJoin ucs channel opts ! i = Rejected t0 e0"
    using promiseAll_fails_first [OF that, where start = start and happenedFirst = happenedFirst] by (simp add: joinChannel_Rejected)
  have i: "\<exists>t e. fst (installChaincode happenedFirst isFcwPeer ucInstall ucs request timeout start calls) = Rejected t e \<and>
       firstRejected start (installChaincodeCalls isFcwPeer ucInstall ucs request timeout) t e"
    if "\<exists>i < length (installChaincodeCalls isFcwPeer ucInstall ucs request timeout). \<exists>t0 e0.
       installChaincodeCalls isFcwPeer ucInstall ucs request timeout ! i = Rejected t0 e0"
    using promiseAll_fails_first [OF that, where start = start and happenedFirst = happenedFirst] by (simp add: installChaincode_Rejected)
  have w: "\<exists>w rs. wait agg = Some w \<and>
         promiseAll happenedFirst start (joinChannelCalls isFcwPeer ucJoin ucs channel opts) = Fulfilled t rs \<and>
         (\<forall>invokedAt calls2.
            (\<exists>i < length rs. \<exists>t0 e0. responseWait (rs ! i) invokedAt = Rejected t0 e0) \<longrightarrow>
            (\<exists>t' e'. fst (w invokedAt calls2) = Rejected t' e' \<and>
               firstRejected invokedAt (map (\<lambda>r. responseWait r invokedAt) rs) t' e'))"
    if "fst (joinChannel happenedFirst isFcwPeer ucJoin ucs channel opts start calls) = Fulfilled t agg" for t agg
  proof -
    from that obtain rs where rs: "promiseAll happenedFirst start (joinChannelCalls isFcwPeer ucJoin ucs channel opts) = Fulfilled t rs"
      and agg: "agg = \<lparr>data = map responseData rs,
             wait = Some (\<lambda>invokedAt calls2.
               (promiseAll happenedFirst invokedAt (map (\<lambda>r. responseWait r invokedAt) rs),
                calls2 @ map Wait [0..<length rs]))\<rparr>"
      unfolding joinChannel_Fulfilled by blast
    let ?w = "\<lambda>invokedAt calls2.
               (promiseAll happenedFirst invokedAt (map (\<lambda>r. responseWait r invokedAt) rs),
                calls2 @ map Wait [0..<length rs])"
    have "\<exists>t' e'. fst (?w invokedAt calls2) = Rejected t' e' \<and>
               firstRejected invokedAt (map (\<lambda>r. responseWait r invokedAt) rs) t' e'"
      if "\<exists>i < length rs. \<exists>t0 e0. responseWait (rs ! i) invokedAt = Rejected t0 e0" for invokedAt calls2
    proof -
      from that have "\<exists>i < length (map (\<lambda>r. responseWait r invokedAt) rs). \<exists>t0 e0.
          map (\<lambda>r. responseWait r invokedAt) rs ! i = Rejected t0 e0"
        by auto
      from promiseAll_fails_first [OF this, where start = invokedAt and happenedFirst = happenedFirst] show ?thesis by simp
    qed
    with rs agg show ?thesis
      by (intro exI [of _ ?w] exI [of _ rs]) simp
  qed
  from j i w show ?thesis
    by (intro conjI impI allI) blast+
qed


theorem fan_out_fails_fast_witness:
  "joinChannelCalls exampleIsFcwPeer (exampleJoinChannel [(''admin2'', 7)] []) [client1, client2, client3]
       exampleChannel None ! 1 = Rejected 7 (Error ''admin2'') \<and>
   fst (joinChannel exampleHappenedFirst exampleIsFcwPeer (exampleJoinChannel [(''admin2'', 7)] []) [client1, client2, client3]
       exampleChannel None 0 []) = Rejected 7 (Error ''admin2'') \<and>
   installChaincodeCalls exampleIsFcwPeer (exampleInstallChaincode [(''admin1'', 9), (''admin2'', 7)] [])
       [client1, client2, client3] exampleRequest None ! 0 = Rejected 9 (Error ''admin1'') \<and>
   fst (installChaincode exampleHappenedFirst exampleIsFcwPeer (exampleInstallChaincode [(''admin1'', 9), (''admin2'', 7)] [])
       [client1, client2, client3] exampleRequest None 0 []) = Rejected 7 (Error ''admin2'') \<and>
   fst (installChaincode exampleHappenedFirst exampleIsFcwPeer (exampleInstallChaincode [(''admin1'', 9), (''admin2'', 7)] [])
       [client1, client2, client3] exampleRequest None 10 []) = Rejected 10 (Error ''admin1'') \<and>
   (case fst (joinChannel exampleHappenedFirst exampleIsFcwPeer (exampleJoinChannel [] [(''admin2'', 4)]) [client1, client2, client3]
       exampleChannel None 0 []) of
      Fulfilled t agg \<Rightarrow>
        (case wait agg of Some w \<Rightarrow> fst (w 5 []) = Rejected 9 (Error ''admin2'') | None \<Rightarrow> False)
    | _ \<Rightarrow> False) \<and>
   (\<exists>t e. fst (joinChannel exampleHappenedFirst exampleIsFcwPeer (exampleJoinChannel [(''admin2'', 7)] []) [client1, client2, client3]
       exampleChannel None 0 []) = Rejected t e \<and>
     firstRejected 0 (joinChannelCalls exampleIsFcwPeer (exampleJoinChannel [(''admin2'', 7)] [])
       [client1, client2, client3] exampleChannel None) t e) \<and>
   (\<exists>t e. fst (installChaincode exampleHappenedFirst exampleIsFcwPeer (exampleInstallChaincode [(''admin1'', 9), (''admin2'', 7)] [])
       [client1, client2, client3] exampleRequest None 0 []) = Rejected t e \<and>
     firstRejected 0 (installChaincodeCalls exampleIsFcwPeer (exampleInstallChaincode [(''admin1'', 9), (''admin2'', 7)] [])
       [client1, client2, client3] exampleRequest None) t e) \<and>
   (\<exists>t agg w rs. fst (joinChannel exampleHappenedFirst exampleIsFcwPeer (exampleJoinChannel [] [(''admin2'', 4)]) [client1, client2, client3]
       exampleChannel None 0 []) = Fulfilled t agg \<and> wait agg = Some w \<and>
     promiseAll exampleHappenedFirst 0 (joinChannelCalls exampleIsFcwPeer (exampleJoinChannel [] [(''admin2'', 4)])
       [client1, client2, client3] exampleChannel None) = Fulfilled t rs \<and>
     responseWait (rs ! 1) 5 = Rejected 9 (Error ''admin2'') \<and>
     (\<exists>t' e'. fst (w 5 []) = Rejected t' e' \<and>
        firstRejected 5 (map (\<lambda>r. responseWait r 5) rs) t' e'))"
proof -
  let ?ucs = "[client1, client2, client3]"
  let ?jc = "joinChannelCalls exampleIsFcwPeer (exampleJoinChannel [(''admin2'', 7)] []) ?ucs exampleChannel None"
  have a: "?jc ! 1 = Rejected 7 (Error ''admin2'')" and l: "length ?jc = 2"
    by (simp_all add: joinChannelCalls_def example_join_parts exampleJoinChannel_def example_names)
  have b: "fst (joinChannel exampleHappenedFirst exampleIsFcwPeer (exampleJoinChannel [(''admin2'', 7)] []) ?ucs
       exampleChannel None 0 []) = Rejected 7 (Error ''admin2'')"
    by (simp add: joinChannel_def Let_def joinChannelCalls_def example_join_parts exampleJoinChannel_def
        example_names promiseAll_def)
  have c: "installChaincodeCalls exampleIsFcwPeer (exampleInstallChaincode [(''admin1'', 9), (''admin2'', 7)] [])
       ?ucs exampleRequest None ! 0 = Rejected 9 (Error ''admin1'')"
    by (simp add: installChaincodeCalls_def example_install_parts exampleInstallChaincode_def example_names)
  have d: "fst (installChaincode exampleHappenedFirst exampleIsFcwPeer (exampleInstallChaincode [(''admin1'', 9), (''admin2'', 7)] [])
       ?ucs exampleRequest None 0 []) = Rejected 7 (Error ''admin2'')"
    by (simp add: installChaincode_def Let_def installChaincodeCalls_def example_install_parts
        exampleInstallChaincode_def example_names promiseAll_def)
  have d10: "fst (installChaincode exampleHappenedFirst exampleIsFcwPeer (exampleInstallChaincode [(''admin1'', 9), (''admin2'', 7)] [])
       ?ucs exampleRequest None 10 []) = Rejected 10 (Error ''admin1'')"
    by (simp add: installChaincode_def Let_def installChaincodeCalls_def example_install_parts
        exampleInstallChaincode_def example_names promiseAll_def)
  have e: "(case fst (joinChannel exampleHappenedFirst exampleIsFcwPeer (exampleJoinChannel [] [(''admin2'', 4)]) ?ucs
       exampleChannel None 0 []) of
      Fulfilled t agg \<Rightarrow>
        (case wait agg of Some w \<Rightarrow> fst (w 5 []) = Rejected 9 (Error ''admin2'') | None \<Rightarrow> False)
    | _ \<Rightarrow> False)"
    by (simp add: joinChannel_def Let_def joinChannelCalls_def example_join_parts exampleJoinChannel_def
        exampleResponse_def example_names promiseAll_def)
  have h: "\<exists>i < length ?jc. \<exists>t0 e0. ?jc ! i = Rejected t0 e0"
    using a l by (intro exI [of _ 1]) simp
  note t = fan_out_fails_fast [where happenedFirst = exampleHappenedFirst and isFcwPeer = exampleIsFcwPeer
      and ucJoin = "exampleJoinChannel [(''admin2'', 7)] []" and ucs = ?ucs and channel = exampleChannel
      and opts = None and start = 0 and calls = "[]", THEN conjunct1, THEN mp, OF h]
  let ?ic = "installChaincodeCalls exampleIsFcwPeer (exampleInstallChaincode [(''admin1'', 9), (''admin2'', 7)] [])
       ?ucs exampleRequest None"
  have li: "length ?ic = 2"
    by (simp add: installChaincodeCalls_def example_install_parts)
  have hi: "\<exists>i < length ?ic. \<exists>t0 e0. ?ic ! i = Rejected t0 e0"
    using c li by (intro exI [of _ 0]) simp
  note ti = fan_out_fails_fast [where happenedFirst = exampleHappenedFirst and isFcwPeer = exampleIsFcwPeer
      and ucInstall = "exampleInstallChaincode [(''admin1'', 9), (''admin2'', 7)] []" and ucs = ?ucs
      and request = exampleRequest and timeout = None and start = 0 and calls = "[]",
      THEN conjunct2, THEN conjunct1, THEN mp, OF hi]
  let ?jw = "joinChannelCalls exampleIsFcwPeer (exampleJoinChannel [] [(''admin2'', 4)]) ?ucs exampleChannel None"
  let ?rs = "[exampleResponse [(''admin2'', 4)] client1, exampleResponse [(''admin2'', 4)] client2]"
  have pw: "promiseAll exampleHappenedFirst 0 ?jw = Fulfilled 3 ?rs"
    by (simp add: joinChannelCalls_def example_join_parts exampleJoinChannel_def promiseAll_def)
  then obtain agg where agg: "fst (joinChannel exampleHappenedFirst exampleIsFcwPeer (exampleJoinChannel [] [(''admin2'', 4)]) ?ucs
        exampleChannel None 0 []) = Fulfilled 3 agg"
    by (auto simp: joinChannel_Fulfilled)
  from fan_out_fails_fast [where happenedFirst = exampleHappenedFirst and isFcwPeer = exampleIsFcwPeer
      and ucJoin = "exampleJoinChannel [] [(''admin2'', 4)]" and ucs = ?ucs and channel = exampleChannel
      and opts = None and start = 0 and calls = "[]",
      THEN conjunct2, THEN conjunct2, THEN spec, THEN spec, THEN mp, OF agg] pw
  obtain w where w: "wait agg = Some w"
    "\<forall>invokedAt calls2.
        (\<exists>i < length ?rs. \<exists>t0 e0. responseWait (?rs ! i) invokedAt = Rejected t0 e0) \<longrightarrow>
        (\<exists>t' e'. fst (w invokedAt calls2) = Rejected t' e' \<and>
           firstRejected invokedAt (map (\<lambda>r. responseWait r invokedAt) ?rs) t' e')"
    by auto
  have r1: "responseWait (?rs ! 1) 5 = Rejected 9 (Error ''admin2'')"
    by (simp add: exampleResponse_def example_names)
  then have "\<exists>i < length ?rs. \<exists>t0 e0. responseWait (?rs ! i) 5 = Rejected t0 e0"
    by (intro exI [of _ 1]) simp
  with w(2) have "\<exists>t' e'. fst (w 5 []) = Rejected t' e' \<and>
           firstRejected 5 (map (\<lambda>r. responseWait r 5) ?rs) t' e'"
    by blast
  with agg w(1) pw r1 have tw: "\<exists>t agg w rs. fst (joinChannel exampleHappenedFirst exampleIsFcwPeer (exampleJoinChannel [] [(''admin2'', 4)]) ?ucs
       exampleChannel None 0 []) = Fulfilled t agg \<and> wait agg = Some w \<and>
     promiseAll exampleHappenedFirst 0 ?jw = Fulfilled t rs \<and>
     responseWait (rs ! 1) 5 = Rejected 9 (Error ''admin2'') \<and>
     (\<exists>t' e'. fst (w 5 []) = Rejected t' e' \<and>
        firstRejected 5 (map (\<lambda>r. responseWait r 5) rs) t' e')"
    by blast
  show ?thesis
    by (intro conjI) (fact a b c d d10 e t ti tw)+
qed

subsection \<open>The deferred completion\<close>

lemma calls_joinChannel:
  "snd (joinChannel happenedFirst isFcwPeer ucJoin ucs channel opts start calls) =
     calls @ map (\<lambda>(uc, ownedPeers). JoinChannel uc ownedPeers) (joinChannelOwnedPeers isFcwPeer ucs channel)"
  by (simp add: joinChannel_def Let_def)

lemma calls_installChaincode:
  "snd (installChaincode happenedFirst isFcwPeer ucInstall ucs request timeout start calls) =
     calls @ map (\<lambda>(uc, ownedPeers). InstallChaincode uc ownedPeers)
               (installChaincodeOwnedPeers isFcwPeer ucs request)"
  by (simp add: installChaincode_def Let_def)

text \<open>
  C2. By the specification every fan-out operation, \<^verbatim>\<open>installChaincode\<close> included,
  returns an object with a \<^verbatim>\<open>wait()\<close> operation. The object
  \<^verbatim>\<open>installChaincode\<close> returns has \<^verbatim>\<open>data\<close> and no \<^verbatim>\<open>wait\<close>: on the
  example network, with every call succeeding:
\<close>

theorem installChaincode_exposes_no_wait:
  "fst (installChaincode exampleHappenedFirst exampleIsFcwPeer (exampleInstallChaincode [] []) [client1, client2, client3]
     exampleRequest None 0 []) =
   Fulfilled 3 \<lparr>data = [''admin1'', ''admin2''], wait = None\<rparr>"
  by (simp add: installChaincode_def Let_def installChaincodeCalls_def example_install_parts
      exampleInstallChaincode_def exampleResponse_def example_names promiseAll_def)

text \<open>
  C2, amended. \<^verbatim>\<open>joinChannel\<close> itself calls \<^verbatim>\<open>joinChannel\<close> of the clients and no
  \<^verbatim>\<open>wait()\<close>; when it succeeds, the object it returns holds the data of the responses
  and a \<^verbatim>\<open>wait\<close> which, when invoked, invokes \<^verbatim>\<open>wait()\<close> of every response, all in
  that one call, and returns \<^verbatim>\<open>Promise.all\<close> of the promises they give: it is
  fulfilled exactly when all of them are, no earlier than the last of them, with their
  values in order. \<^verbatim>\<open>installChaincode\<close> calls \<^verbatim>\<open>installChaincode\<close> of the clients
  and, when it succeeds, returns the data of the responses and no \<^verbatim>\<open>wait\<close>.
\<close>

theorem joinChannel_wait_awaits_all:
  "snd (joinChannel happenedFirst isFcwPeer ucJoin ucs channel opts start calls) =
     calls @ map (\<lambda>(uc, ownedPeers). JoinChannel uc ownedPeers) (joinChannelOwnedPeers isFcwPeer ucs channel) \<and>
   (\<forall>t agg. fst (joinChannel happenedFirst isFcwPeer ucJoin ucs channel opts start calls) = Fulfilled t agg \<longrightarrow>
      (\<exists>w rs. wait agg = Some w \<and>
         promiseAll happenedFirst start (joinChannelCalls isFcwPeer ucJoin ucs channel opts) = Fulfilled t rs \<and>
         data agg = map responseData rs \<and>
         (\<forall>invokedAt calls2.
            snd (w invokedAt calls2) = calls2 @ map Wait [0..<length rs] \<and>
            fst (w invokedAt calls2) = promiseAll happenedFirst invokedAt (map (\<lambda>r. responseWait r invokedAt) rs) \<and>
            (\<forall>t' vs. fst (w invokedAt calls2) = Fulfilled t' vs \<longrightarrow>
               length vs = length rs \<and> invokedAt \<le> t' \<and>
               (\<forall>i < length rs. \<exists>ti \<le> t'. responseWait (rs ! i) invokedAt = Fulfilled ti (vs ! i))) \<and>
            ((\<forall>i < length rs. \<exists>ti v. responseWait (rs ! i) invokedAt = Fulfilled ti v) \<longrightarrow>
               (\<exists>t' vs. fst (w invokedAt calls2) = Fulfilled t' vs))))) \<and>
   snd (installChaincode happenedFirst isFcwPeer ucInstall ucs request timeout start calls) =
     calls @ map (\<lambda>(uc, ownedPeers). InstallChaincode uc ownedPeers)
               (installChaincodeOwnedPeers isFcwPeer ucs request) \<and>
   (\<forall>t agg. fst (installChaincode happenedFirst isFcwPeer ucInstall ucs request timeout start calls) = Fulfilled t agg \<longrightarrow>
      wait agg = None \<and>
      (\<exists>rs. promiseAll happenedFirst start (installChaincodeCalls isFcwPeer ucInstall ucs request timeout) = Fulfilled t rs \<and>
         data agg = map responseData rs))"
proof -
  have j: "\<exists>w rs. wait agg = Some w \<and>
         promiseAll happenedFirst start (joinChannelCalls isFcwPeer ucJoin ucs channel opts) = Fulfilled t rs \<and>
         data agg = map responseData rs \<and>
         (\<forall>invokedAt calls2.
            snd (w invokedAt calls2) = calls2 @ map Wait [0..<length rs] \<and>
            fst (w invokedAt calls2) = promiseAll happenedFirst invokedAt (map (\<lambda>r. responseWait r invokedAt) rs) \<and>
            (\<forall>t' vs. fst (w invokedAt calls2) = Fulfilled t' vs \<longrightarrow>
               length vs = length rs \<and> invokedAt \<le> t' \<and>
               (\<forall>i < length rs. \<exists>ti \<le> t'. responseWait (rs ! i) invokedAt = Fulfilled ti (vs ! i))) \<and>
            ((\<forall>i < length rs. \<exists>ti v. responseWait (rs ! i) invokedAt = Fulfilled ti v) \<longrightarrow>
               (\<exists>t' vs. fst (w invokedAt calls2) = Fulfilled t' vs)))"
    if "fst (joinChannel happenedFirst isFcwPeer ucJoin ucs channel opts start calls) = Fulfilled t agg" for t agg
  proof -
    from that obtain rs where rs: "promiseAll happenedFirst start (joinChannelCalls isFcwPeer ucJoin ucs channel opts) = Fulfilled t rs"
      and agg: "agg = \<lparr>data = map responseData rs,
             wait = Some (\<lambda>invokedAt calls2.
               (promiseAll happenedFirst invokedAt (map (\<lambda>r. responseWait r invokedAt) rs),
                calls2 @ map Wait [0..<length rs]))\<rparr>"
      unfolding joinChannel_Fulfilled by blast
    let ?w = "\<lambda>invokedAt calls2.
               (promiseAll happenedFirst invokedAt (map (\<lambda>r. responseWait r invokedAt) rs),
                calls2 @ map Wait [0..<length rs])"
    have f: "length vs = length rs \<and> invokedAt \<le> t' \<and>
               (\<forall>i < length rs. \<exists>ti \<le> t'. responseWait (rs ! i) invokedAt = Fulfilled ti (vs ! i))"
      if "fst (?w invokedAt calls2) = Fulfilled t' vs" for invokedAt calls2 t' vs
    proof -
      from that have "allFulfilled invokedAt (map (\<lambda>r. responseWait r invokedAt) rs) = Some (t', vs)"
        by (simp add: promiseAll_Fulfilled)
      from allFulfilled_Some [OF this] show ?thesis by simp
    qed
    have g: "\<exists>t' vs. fst (?w invokedAt calls2) = Fulfilled t' vs"
      if "\<forall>i < length rs. \<exists>ti v. responseWait (rs ! i) invokedAt = Fulfilled ti v" for invokedAt calls2
    proof -
      from that have "\<forall>p \<in> set (map (\<lambda>r. responseWait r invokedAt) rs). \<exists>t v. p = Fulfilled t v"
        by (auto simp: in_set_conv_nth)
      from promiseAll_all_fulfilled [OF this, where start = invokedAt and happenedFirst = happenedFirst] show ?thesis by simp
    qed
    have "\<forall>invokedAt calls2.
            snd (?w invokedAt calls2) = calls2 @ map Wait [0..<length rs] \<and>
            fst (?w invokedAt calls2) = promiseAll happenedFirst invokedAt (map (\<lambda>r. responseWait r invokedAt) rs) \<and>
            (\<forall>t' vs. fst (?w invokedAt calls2) = Fulfilled t' vs \<longrightarrow>
               length vs = length rs \<and> invokedAt \<le> t' \<and>
               (\<forall>i < length rs. \<exists>ti \<le> t'. responseWait (rs ! i) invokedAt = Fulfilled ti (vs ! i))) \<and>
            ((\<forall>i < length rs. \<exists>ti v. responseWait (rs ! i) invokedAt = Fulfilled ti v) \<longrightarrow>
               (\<exists>t' vs. fst (?w invokedAt calls2) = Fulfilled t' vs))"
    proof (intro allI)
      fix invokedAt calls2
      have 1: "\<forall>t' vs. fst (?w invokedAt calls2) = Fulfilled t' vs \<longrightarrow>
               length vs = length rs \<and> invokedAt \<le> t' \<and>
               (\<forall>i < length rs. \<exists>ti \<le> t'. responseWait (rs ! i) invokedAt = Fulfilled ti (vs ! i))"
        using f [of invokedAt calls2] by blast
      have 2: "(\<forall>i < length rs. \<exists>ti v. responseWait (rs ! i) invokedAt = Fulfilled ti v) \<longrightarrow>
               (\<exists>t' vs. fst (?w invokedAt calls2) = Fulfilled t' vs)"
        using g [of invokedAt calls2] by blast
      have 3: "snd (?w invokedAt calls2) = calls2 @ map Wait [0..<length rs]"
        "fst (?w invokedAt calls2) = promiseAll happenedFirst invokedAt (map (\<lambda>r. responseWait r invokedAt) rs)"
        by simp_all
      show "snd (?w invokedAt calls2) = calls2 @ map Wait [0..<length rs] \<and>
            fst (?w invokedAt calls2) = promiseAll happenedFirst invokedAt (map (\<lambda>r. responseWait r invokedAt) rs) \<and>
            (\<forall>t' vs. fst (?w invokedAt calls2) = Fulfilled t' vs \<longrightarrow>
               length vs = length rs \<and> invokedAt \<le> t' \<and>
               (\<forall>i < length rs. \<exists>ti \<le> t'. responseWait (rs ! i) invokedAt = Fulfilled ti (vs ! i))) \<and>
            ((\<forall>i < length rs. \<exists>ti v. responseWait (rs ! i) invokedAt = Fulfilled ti v) \<longrightarrow>
               (\<exists>t' vs. fst (?w invokedAt calls2) = Fulfilled t' vs))"
        by (intro conjI) (fact 1 2 3)+
    qed
    with rs agg show ?thesis
      by (intro exI [of _ ?w] exI [of _ rs]) simp
  qed
  have i: "wait agg = None \<and>
      (\<exists>rs. promiseAll happenedFirst start (installChaincodeCalls isFcwPeer ucInstall ucs request timeout) = Fulfilled t rs \<and>
         data agg = map responseData rs)"
    if "fst (installChaincode happenedFirst isFcwPeer ucInstall ucs request timeout start calls) = Fulfilled t agg" for t agg
    using that unfolding installChaincode_Fulfilled by auto
  from j i show ?thesis
    by (intro conjI allI impI calls_joinChannel calls_installChaincode) blast+
qed


theorem joinChannel_wait_awaits_all_witness:
  "snd (joinChannel exampleHappenedFirst exampleIsFcwPeer (exampleJoinChannel [] []) [client1, client2, client3]
      exampleChannel None 0 []) =
     [JoinChannel client1 [peer1, peer2], JoinChannel client2 [peer4]] \<and>
   (\<exists>t agg w. fst (joinChannel exampleHappenedFirst exampleIsFcwPeer (exampleJoinChannel [] []) [client1, client2, client3]
        exampleChannel None 0 []) = Fulfilled t agg \<and>
      wait agg = Some w \<and> data agg = [''admin1'', ''admin2''] \<and>
      w 5 [] = (Fulfilled 7 [(), ()], [Wait 0, Wait 1])) \<and>
   (\<exists>t agg. fst (installChaincode exampleHappenedFirst exampleIsFcwPeer (exampleInstallChaincode [] [])
        [client1, client2, client3] exampleRequest None 0 []) = Fulfilled t agg \<and>
      wait agg = None \<and> data agg = [''admin1'', ''admin2''])"
proof -
  let ?ucs = "[client1, client2, client3]"
  let ?jc = "joinChannelCalls exampleIsFcwPeer (exampleJoinChannel [] []) ?ucs exampleChannel None"
  let ?rs = "[exampleResponse [] client1, exampleResponse [] client2]"
  let ?ic = "installChaincodeCalls exampleIsFcwPeer (exampleInstallChaincode [] []) ?ucs exampleRequest None"
  note t = joinChannel_wait_awaits_all [where happenedFirst = exampleHappenedFirst and isFcwPeer = exampleIsFcwPeer
      and ucJoin = "exampleJoinChannel [] []" and ucs = ?ucs and channel = exampleChannel
      and opts = None and start = 0 and calls = "[]"
      and ucInstall = "exampleInstallChaincode [] []" and request = exampleRequest and timeout = None]
  have pj: "promiseAll exampleHappenedFirst 0 ?jc = Fulfilled 3 ?rs"
    by (simp add: joinChannelCalls_def example_join_parts exampleJoinChannel_def promiseAll_def)
  have pinst: "promiseAll exampleHappenedFirst 0 ?ic = Fulfilled 3 ?rs"
    by (simp add: installChaincodeCalls_def example_install_parts exampleInstallChaincode_def promiseAll_def)
  from pj obtain agg where agg: "fst (joinChannel exampleHappenedFirst exampleIsFcwPeer (exampleJoinChannel [] []) ?ucs
        exampleChannel None 0 []) = Fulfilled 3 agg"
    by (auto simp: joinChannel_Fulfilled)
  from t [THEN conjunct2, THEN conjunct1, THEN spec, THEN spec, THEN mp, OF agg] pj
  obtain w where w: "wait agg = Some w" "data agg = map responseData ?rs"
    "\<forall>invokedAt calls2.
        snd (w invokedAt calls2) = calls2 @ map Wait [0..<length ?rs] \<and>
        fst (w invokedAt calls2) = promiseAll exampleHappenedFirst invokedAt (map (\<lambda>r. responseWait r invokedAt) ?rs)"
    by auto
  from w(3) have "snd (w 5 []) = [] @ map Wait [0..<length ?rs]"
    "fst (w 5 []) = promiseAll exampleHappenedFirst 5 (map (\<lambda>r. responseWait r 5) ?rs)"
    by blast+
  then have "snd (w 5 []) = [Wait 0, Wait 1]" "fst (w 5 []) = Fulfilled 7 [(), ()]"
    by (simp_all add: upt_rec exampleResponse_def promiseAll_def)
  then have w5: "w 5 [] = (Fulfilled 7 [(), ()], [Wait 0, Wait 1])"
    by (simp add: prod_eq_iff)
  have d: "data agg = [''admin1'', ''admin2'']"
    by (simp add: w(2) exampleResponse_def example_names)
  have a: "snd (joinChannel exampleHappenedFirst exampleIsFcwPeer (exampleJoinChannel [] []) ?ucs exampleChannel None 0 []) =
     [JoinChannel client1 [peer1, peer2], JoinChannel client2 [peer4]]"
    using t [THEN conjunct1] by (simp add: example_join_parts)
  from pinst obtain agg' where agg': "fst (installChaincode exampleHappenedFirst exampleIsFcwPeer (exampleInstallChaincode [] [])
        ?ucs exampleRequest None 0 []) = Fulfilled 3 agg'"
    by (auto simp: installChaincode_Fulfilled)
  from t [THEN conjunct2, THEN conjunct2, THEN conjunct2, THEN spec, THEN spec, THEN mp, OF agg'] pinst
  have i: "wait agg' = None" "data agg' = [''admin1'', ''admin2'']"
    by (auto simp: exampleResponse_def example_names)
  from a agg w(1) d w5 agg' i show ?thesis
    by blast
qed

end
